theory Spec2Isabelle
  imports Main
begin

section \<open>Path accumulator (\<open>getUpdate\<close>)\<close>

text \<open>
  The draft engine (immer) is an external library. On commit it hands the store a list of
  edit records, each with a kind (\<open>op\<close>) and a path whose segments are object keys
  (strings) or array indices (numbers).
\<close>

datatype segment = Key string | Index nat

datatype op_kind = Add | Remove | Replace

record operation =
  op :: op_kind
  path :: "segment list"

text \<open>Decimal rendering of an array index, as JavaScript's number-to-string conversion.\<close>

definition digit_char :: "nat \<Rightarrow> char" where
  "digit_char d = char_of (48 + d)"

function string_of_nat :: "nat \<Rightarrow> string" where
  "string_of_nat n =
     (if n < 10 then [digit_char n] else string_of_nat (n div 10) @ [digit_char (n mod 10)])"
  by pat_completeness auto
termination
  by (relation "measure id") auto

declare string_of_nat.simps [simp del]

fun seg_str :: "segment \<Rightarrow> string" where
  "seg_str (Key k) = k"
| "seg_str (Index i) = string_of_nat i"

text \<open>\<open>Array.prototype.join('.')\<close>: the empty array gives the empty string.\<close>

fun join :: "segment list \<Rightarrow> string" where
  "join [] = []"
| "join [x] = seg_str x"
| "join (x # y # ys) = seg_str x @ ''.'' @ join (y # ys)"

text \<open>
  A JavaScript \<open>Set\<close> of strings keeps insertion order and ignores a value it already
  holds; it is a duplicate-free list here, \<open>Set.prototype.add\<close> is \<open>set_add\<close>.
\<close>

definition set_add :: "string list \<Rightarrow> string \<Rightarrow> string list" where
  "set_add xs x = (if x \<in> set xs then xs else xs @ [x])"

text \<open>
  The body of the listener passed to \<open>finishDraft\<close>: for an \<open>add\<close> or \<open>remove\<close>
  record the path without its last segment is added first
  (\<open>operation.path.slice(0, operation.path.length - 1)\<close>), then the path itself.
\<close>

definition add_operation :: "operation \<Rightarrow> string list \<Rightarrow> string list" where
  "add_operation operation paths =
     set_add
       (if op operation = Add \<or> op operation = Remove
        then set_add paths (join (butlast (path operation)))
        else paths)
       (join (path operation))"

definition collect_paths :: "operation list \<Rightarrow> string list" where
  "collect_paths operations = fold add_operation operations []"


section \<open>The draft engine\<close>

text \<open>
  Modelled from the spec: \<open>createDraft\<close> and \<open>finishDraft\<close> belong to the external draft
  engine (immer), which "provides copy-on-write mutable views over an immutable snapshot,
  and on commit emits a low-level list of edit records plus the new immutable snapshot".
  A snapshot is represented by the edit records committed since the configured initial
  state; a draft by the snapshot it was opened on and the edit records the engine will
  report when it is finished.
\<close>

type_synonym snapshot = "operation list"

record draft =
  base :: snapshot
  pending :: "operation list"

definition createDraft :: "snapshot \<Rightarrow> draft" where
  "createDraft st = \<lparr>base = st, pending = []\<rparr>"

definition finishDraft :: "draft \<Rightarrow> snapshot \<times> operation list" where
  "finishDraft d = (base d @ pending d, pending d)"

text \<open>\<open>getUpdate\<close> returns \<open>{ newState, paths }\<close>.\<close>

definition getUpdate :: "draft \<Rightarrow> snapshot \<times> string list" where
  "getUpdate d = (let (newState, operations) = finishDraft d in (newState, collect_paths operations))"

section \<open>Errors\<close>

text \<open>
  A thrown JavaScript value: an error object with its \<open>message\<close>, or any other value
  (one whose \<open>message\<close> is not a string).
\<close>

datatype thrown = JsError string | JsOther

text \<open>The \<open>TypeError\<close>s of the runtime for a method call on \<open>undefined\<close> and on a value that
  does not have the method.\<close>

definition undefined_error :: thrown where
  "undefined_error = JsError ''Cannot read properties of undefined''"

definition not_a_function :: "string \<Rightarrow> thrown" where
  "not_a_function method = JsError (''pathListeners[path].'' @ method @ '' is not a function'')"

section \<open>The store and its subscription registry\<close>

text \<open>
  Objects and functions are compared by identity in JavaScript. A subscription object
  \<open>{ update, name }\<close> carries the identity \<open>sub_id\<close> it was created with; an update
  function is the natural number that identifies it.
\<close>

record subscription =
  sub_id :: nat
  update :: nat
  name :: "string option"

text \<open>
  What the store makes observable: \<open>Mutations\<close> is the log line of \<open>flushMutations\<close>
  (one per commit, with the action's name and the dirty paths), \<open>Render\<close> a call of
  \<open>subscription.update()\<close> for a path, \<open>GlobalRender\<close> a call of a global listener.
  Modelled from the spec: \<open>log\<close> itself is in \<open>utils\<close>, a sink that is "purely observational"
  and "must never affect control flow".
\<close>

datatype event =
  Mutations string "string list"
| Render nat string
| GlobalRender nat

text \<open>
  The closure variables of \<open>createStore\<close>. \<open>pathListeners\<close> is a plain object used as a
  dictionary from path strings to arrays, kept as an association list of its own keys;
  \<open>allocated\<close> counts the subscription objects created so far and \<open>trace\<close> records the
  observable events.
\<close>

record store =
  currentState :: snapshot
  pathListeners :: "(string \<times> subscription list) list"
  globalListeners :: "nat list"
  allocated :: nat
  trace :: "event list"

definition createStore :: "snapshot \<Rightarrow> store" where
  "createStore state =
     \<lparr>currentState = fst (finishDraft (createDraft state)), pathListeners = [],
      globalListeners = [], allocated = 0, trace = []\<rparr>"

text \<open>Property assignment \<open>obj[key] = value\<close> on the dictionary.\<close>

fun put :: "string \<Rightarrow> 'v \<Rightarrow> (string \<times> 'v) list \<Rightarrow> (string \<times> 'v) list" where
  "put k v [] = [(k, v)]"
| "put k v ((k', v') # kvs) = (if k = k' then (k, v) # kvs else (k', v') # put k v kvs)"

text \<open>
  \<open>pathListeners\<close> is created as \<open>{}\<close>, so reading \<open>pathListeners[path]\<close> also finds what the
  object inherits from \<open>Object.prototype\<close>: for one of the names below, and no own key of
  that name, the value is a function (or, for \<open>__proto__\<close>, the prototype itself), which is
  truthy and has none of the array methods.
\<close>

definition inherited :: "string \<Rightarrow> bool" where
  "inherited p =
     (p \<in> set [''constructor'', ''hasOwnProperty'', ''isPrototypeOf'', ''propertyIsEnumerable'',
                ''toLocaleString'', ''toString'', ''valueOf'', ''__proto__'',
                ''__defineGetter__'', ''__defineSetter__'', ''__lookupGetter__'',
                ''__lookupSetter__''])"

datatype 'a property = Undefined | Inherited | Own 'a

definition get_property :: "(string \<times> 'a) list \<Rightarrow> string \<Rightarrow> 'a property" where
  "get_property obj p =
     (case map_of obj p of
        Some v \<Rightarrow> Own v
      | None \<Rightarrow> if inherited p then Inherited else Undefined)"

text \<open>The array a path has of its own, empty when it has none.\<close>

definition bucket :: "(string \<times> subscription list) list \<Rightarrow> string \<Rightarrow> subscription list" where
  "bucket pl p = (case map_of pl p of None \<Rightarrow> [] | Some b \<Rightarrow> b)"

text \<open>
  \<open>Array.prototype.indexOf\<close>: the first index of the value, or \<open>-1\<close>.
  \<open>Array.prototype.splice(start, 1)\<close>: a negative \<open>start\<close> counts from the end of the
  array, so \<open>splice(-1, 1)\<close> removes the last element.
\<close>

fun indexOf :: "'a list \<Rightarrow> 'a \<Rightarrow> int" where
  "indexOf [] x = - 1"
| "indexOf (y # ys) x =
     (if y = x then 0 else (let i = indexOf ys x in if i < 0 then - 1 else i + 1))"

definition splice1 :: "int \<Rightarrow> 'a list \<Rightarrow> 'a list" where
  "splice1 start xs =
     (let len = int (length xs);
          actualStart = nat (if start < 0 then max (len + start) 0 else min start len)
      in take actualStart xs @ drop (Suc actualStart) xs)"

subsection \<open>The heap of caller-visible collections\<close>

text \<open>
  \<open>subscribe\<close> receives a reference to the caller's \<open>Set\<close> and copies it with
  \<open>Array.from\<close>. The heap holds both kinds of object; an address is an index into it and
  allocation appends a cell.
\<close>

datatype obj = SetObj "string list" | ArrayObj "string list"

type_synonym heap = "obj list"

fun elements :: "obj \<Rightarrow> string list" where
  "elements (SetObj xs) = xs"
| "elements (ArrayObj xs) = xs"

definition array_from :: "heap \<Rightarrow> nat \<Rightarrow> string list" where
  "array_from h a = (if a < length h then elements (h ! a) else [])"

text \<open>The caller's operations on a \<open>Set\<close> object: \<open>add\<close>, \<open>delete\<close> and \<open>clear\<close>.\<close>

datatype set_op = SetAdd string | SetDelete string | SetClear

fun apply_set_op :: "set_op \<Rightarrow> string list \<Rightarrow> string list" where
  "apply_set_op (SetAdd x) xs = set_add xs x"
| "apply_set_op (SetDelete x) xs = removeAll x xs"
| "apply_set_op SetClear xs = []"

definition mutate_set :: "nat \<Rightarrow> set_op \<Rightarrow> heap \<Rightarrow> heap" where
  "mutate_set a m h =
     (if a < length h
      then (case h ! a of SetObj xs \<Rightarrow> h[a := SetObj (apply_set_op m xs)] | ArrayObj xs \<Rightarrow> h)
      else h)"

text \<open>Any number of such operations, each on the \<open>Set\<close> at some address.\<close>

definition caller_mutations :: "(nat \<times> set_op) list \<Rightarrow> heap \<Rightarrow> heap" where
  "caller_mutations ms h = fold (\<lambda>(a, m). mutate_set a m) ms h"

subsection \<open>\<open>subscribe\<close> and the disposers it returns\<close>

text \<open>
  A disposer is a closure: the one for a path subscription captures the array
  \<open>currentPaths\<close> (by reference) and the subscription object, the one for a global
  listener captures the update function.
\<close>

datatype disposer = PathDisposer nat nat | GlobalDisposer nat

text \<open>
  \<open>if (!pathListeners[path]) pathListeners[path] = []\<close> followed by
  \<open>pathListeners[path].push(subscription)\<close>: a missing bucket is created, and for an
  inherited member \<open>push\<close> is not a function.
\<close>

definition add_listener ::
  "subscription \<Rightarrow> string \<Rightarrow> (string \<times> subscription list) list \<Rightarrow>
   thrown + (string \<times> subscription list) list"
where
  "add_listener subscription p pl =
     (case get_property pl p of
        Undefined \<Rightarrow> Inr (put p [subscription] pl)
      | Own b \<Rightarrow> Inr (put p (b @ [subscription]) pl)
      | Inherited \<Rightarrow> Inl (not_a_function ''push''))"

text \<open>
  \<open>currentPaths.forEach\<close> in \<open>subscribe\<close>: an exception ends the loop and leaves the
  subscription in the buckets already visited.
\<close>

fun add_listeners ::
  "subscription \<Rightarrow> string list \<Rightarrow> (string \<times> subscription list) list \<Rightarrow>
   thrown option \<times> (string \<times> subscription list) list"
where
  "add_listeners subscription [] pl = (None, pl)"
| "add_listeners subscription (p # ps) pl =
     (case add_listener subscription p pl of
        Inl e \<Rightarrow> (Some e, pl)
      | Inr pl' \<Rightarrow> add_listeners subscription ps pl')"

text \<open>
  \<open>subscribe\<close> gives back the disposer, or the error it threw; the heap and the store are
  as it leaves them in both cases.
\<close>

definition subscribe ::
  "heap \<Rightarrow> nat \<Rightarrow> nat option \<Rightarrow> string option \<Rightarrow> store \<Rightarrow> (thrown + disposer) \<times> heap \<times> store"
where
  "subscribe h upd paths nm s =
     (case paths of
        Some a \<Rightarrow>
          (let currentPaths = length h;
               h' = h @ [ArrayObj (array_from h a)];
               subscription = \<lparr>sub_id = allocated s, update = upd, name = nm\<rparr>;
               (e, pl') = add_listeners subscription (array_from h' currentPaths) (pathListeners s)
           in ((case e of
                  None \<Rightarrow> Inr (PathDisposer currentPaths (sub_id subscription))
                | Some x \<Rightarrow> Inl x),
               h', s\<lparr>pathListeners := pl', allocated := Suc (allocated s)\<rparr>))
      | None \<Rightarrow> (Inr (GlobalDisposer upd), h, s\<lparr>globalListeners := globalListeners s @ [upd]\<rparr>))"

text \<open>
  The registry is the part of the store a disposer (and a caller's update function) can
  change. Reading \<open>pathListeners[path]\<close> of a missing key gives \<open>undefined\<close>, and calling
  \<open>splice\<close> on it is a \<open>TypeError\<close>; so is calling \<open>indexOf\<close> on an inherited member.
\<close>

type_synonym registry = "(string \<times> subscription list) list \<times> nat list"

definition remove_listener ::
  "nat \<Rightarrow> string \<Rightarrow> (string \<times> subscription list) list \<Rightarrow> thrown + (string \<times> subscription list) list"
where
  "remove_listener sid p pl =
     (case get_property pl p of
        Undefined \<Rightarrow> Inl undefined_error
      | Inherited \<Rightarrow> Inl (not_a_function ''indexOf'')
      | Own b \<Rightarrow> Inr (put p (splice1 (indexOf (map sub_id b) sid) b) pl))"

text \<open>
  \<open>currentPaths.forEach\<close> in the disposer: an exception ends the loop and leaves the
  buckets already visited as they are. A disposer gives back the error it threw, if any,
  and the registry it leaves.
\<close>

fun remove_listeners ::
  "nat \<Rightarrow> string list \<Rightarrow> (string \<times> subscription list) list \<Rightarrow>
   thrown option \<times> (string \<times> subscription list) list"
where
  "remove_listeners sid [] pl = (None, pl)"
| "remove_listeners sid (p # ps) pl =
     (case remove_listener sid p pl of
        Inl e \<Rightarrow> (Some e, pl)
      | Inr pl' \<Rightarrow> remove_listeners sid ps pl')"

fun run_disposer :: "heap \<Rightarrow> disposer \<Rightarrow> registry \<Rightarrow> thrown option \<times> registry" where
  "run_disposer h (PathDisposer currentPaths sid) (pl, gl) =
     (case remove_listeners sid (array_from h currentPaths) pl of (e, pl') \<Rightarrow> (e, (pl', gl)))"
| "run_disposer h (GlobalDisposer upd) (pl, gl) = (None, (pl, splice1 (indexOf gl upd) gl))"

definition registry :: "store \<Rightarrow> registry" where
  "registry s = (pathListeners s, globalListeners s)"

definition set_registry :: "registry \<Rightarrow> store \<Rightarrow> store" where
  "set_registry r s = s\<lparr>pathListeners := fst r, globalListeners := snd r\<rparr>"

definition dispose :: "heap \<Rightarrow> disposer \<Rightarrow> store \<Rightarrow> thrown option \<times> store" where
  "dispose h d s = (case run_disposer h d (registry s) of (e, r) \<Rightarrow> (e, set_registry r s))"

text \<open>Calling the same disposer a second time (when the first call did not throw).\<close>

definition dispose_twice :: "heap \<Rightarrow> disposer \<Rightarrow> store \<Rightarrow> thrown option \<times> store" where
  "dispose_twice h d s =
     (case dispose h d s of (Some e, s') \<Rightarrow> (Some e, s') | (None, s') \<Rightarrow> dispose h d s')"

subsection \<open>\<open>updateListeners\<close>\<close>

text \<open>
  The update functions are the callers' code. What a call of one does to the registry is
  given by a \<open>behaviour\<close>; update functions are taken to return normally and to reach the
  store only through \<open>subscribe\<close> and their disposers.
\<close>

type_synonym behaviour = "nat \<Rightarrow> registry \<Rightarrow> registry"

definition call_update :: "behaviour \<Rightarrow> nat \<Rightarrow> store \<Rightarrow> store" where
  "call_update env upd s = set_registry (env upd (registry s)) s"


text \<open>
  \<open>Array.prototype.forEach\<close> reads the length once and then visits the indices
  \<open>0 .. length - 1\<close> of the array as it is when each index is reached, skipping an index
  the array no longer has. The bucket of a path is one array object for the lifetime of
  the store, so the array is read from the store at every step. The last argument but one
  counts the indices still to visit.
\<close>

fun forEach_bucket :: "behaviour \<Rightarrow> string \<Rightarrow> nat \<Rightarrow> nat \<Rightarrow> store \<Rightarrow> store" where
  "forEach_bucket env p k 0 s = s"
| "forEach_bucket env p k (Suc n) s =
     forEach_bucket env p (Suc k) n
       (let b = bucket (pathListeners s) p
        in if k < length b
           then call_update env (update (b ! k)) (s\<lparr>trace := trace s @ [Render (sub_id (b ! k)) p]\<rparr>)
           else s)"

fun forEach_global :: "behaviour \<Rightarrow> nat \<Rightarrow> nat \<Rightarrow> store \<Rightarrow> store" where
  "forEach_global env k 0 s = s"
| "forEach_global env k (Suc n) s =
     forEach_global env (Suc k) n
       (let g = globalListeners s
        in if k < length g
           then call_update env (g ! k) (s\<lparr>trace := trace s @ [GlobalRender (g ! k)]\<rparr>)
           else s)"

text \<open>
  \<open>if (pathListeners[path]) pathListeners[path].forEach(...)\<close>: an inherited member is
  truthy and \<open>forEach\<close> is not a function of it. The exception ends \<open>paths.forEach\<close>, so the
  paths after it and the global listeners are not notified.
\<close>

definition notify_path :: "behaviour \<Rightarrow> string \<Rightarrow> store \<Rightarrow> thrown option \<times> store" where
  "notify_path env p s =
     (case get_property (pathListeners s) p of
        Undefined \<Rightarrow> (None, s)
      | Inherited \<Rightarrow> (Some (not_a_function ''forEach''), s)
      | Own b \<Rightarrow> (None, forEach_bucket env p 0 (length b) s))"

fun notify_paths :: "behaviour \<Rightarrow> string list \<Rightarrow> store \<Rightarrow> thrown option \<times> store" where
  "notify_paths env [] s = (None, s)"
| "notify_paths env (p # ps) s =
     (case notify_path env p s of
        (Some e, s') \<Rightarrow> (Some e, s')
      | (None, s') \<Rightarrow> notify_paths env ps s')"

definition updateListeners :: "behaviour \<Rightarrow> string list \<Rightarrow> store \<Rightarrow> thrown option \<times> store" where
  "updateListeners env paths s =
     (case notify_paths env paths s of
        (Some e, s') \<Rightarrow> (Some e, s')
      | (None, s') \<Rightarrow> (None, forEach_global env 0 (length (globalListeners s')) s'))"

text \<open>
  \<open>flushMutations\<close> swaps the state and writes the log line before it notifies, so both
  stay when \<open>updateListeners\<close> throws.
\<close>

definition flushMutations ::
  "behaviour \<Rightarrow> draft \<Rightarrow> string \<Rightarrow> store \<Rightarrow> thrown option \<times> store"
where
  "flushMutations env d actionName s =
     (let (newState, paths) = getUpdate d
      in updateListeners env paths
           (s\<lparr>currentState := newState, trace := trace s @ [Mutations actionName paths]\<rparr>))"

section \<open>Actions (\<open>createAction\<close>)\<close>

text \<open>
  One call of a wrapped action works on the store it was created for (\<open>the_store\<close>) and
  has the closure variables \<open>currentDraft\<close> and \<open>timeout\<close>.
  \<open>timeout\<close> is \<open>True\<close> while the timer armed by the last \<open>setTimeout\<close> is pending:
  \<open>clearTimeout(timeout); timeout = setTimeout(...)\<close> leaves exactly one pending timer.
  \<open>revoked\<close> says that the draft in \<open>currentDraft\<close> has been finished: the engine revokes
  the proxies of a draft when it finishes it, and \<open>currentDraft\<close> keeps such a draft when
  the statement \<open>currentDraft = null\<close> is not reached.
  \<open>unhandled\<close> collects what nobody catches: the rejection of the promise chain
  \<open>actionResult.then(...).catch(...)\<close>, which the store creates and drops, and an error
  thrown by a timer callback.
\<close>

record invocation =
  the_store :: store
  action_name :: string
  currentDraft :: "draft option"
  timeout :: bool
  unhandled :: "thrown list"
  revoked :: bool

definition invoke :: "string \<Rightarrow> store \<Rightarrow> invocation" where
  "invoke nm s =
     \<lparr>the_store = s, action_name = nm, currentDraft = None, timeout = False, unhandled = [],
      revoked = False\<rparr>"

text \<open>\<open>if (!currentDraft)\<close> is about \<open>null\<close> only: a finished draft is kept.\<close>

definition configureUpdate :: "invocation \<Rightarrow> invocation" where
  "configureUpdate w =
     (let w' = (if currentDraft w = None
                then w\<lparr>currentDraft := Some (createDraft (currentState (the_store w))),
                       revoked := False\<rparr>
                else w)
      in w'\<lparr>timeout := True\<rparr>)"

text \<open>
  Modelled from the spec: the draft engine and the JavaScript runtime are external. The
  engine throws when \<open>finishDraft\<close> is given \<open>null\<close>. It revokes the proxies of a draft
  when the draft is finished, and the use of a revoked proxy is what the spec calls an
  "invalidated-reference failure": the runtime throws a \<open>TypeError\<close>, here with the message
  of V8 for a write (the message for another trap differs in the name of the trap only,
  and not in the part the \<open>.catch\<close> callback looks for). \<open>finishDraft\<close> of a finished draft reads the revoked proxy and fails in the same
  way.
\<close>

definition not_a_draft_error :: thrown where
  "not_a_draft_error = JsError ''First argument to finishDraft must be a draft''"

definition revoked_error :: thrown where
  "revoked_error = JsError ''Cannot perform 'set' on a proxy that has been revoked''"

text \<open>
  The two statements \<open>flushMutations(currentDraft, name); currentDraft = null\<close>, which the
  timer callback, the \<open>.then\<close> callback and the synchronous branch share. When
  \<open>flushMutations\<close> throws, the assignment is not reached.
\<close>

definition flush_draft :: "behaviour \<Rightarrow> invocation \<Rightarrow> thrown option \<times> invocation" where
  "flush_draft env w =
     (case currentDraft w of
        None \<Rightarrow> (Some not_a_draft_error, w)
      | Some d \<Rightarrow>
          if revoked w then (Some revoked_error, w)
          else (case flushMutations env d (action_name w) (the_store w) of
                  (Some e, s') \<Rightarrow> (Some e, w\<lparr>the_store := s', revoked := True\<rparr>)
                | (None, s') \<Rightarrow> (None, w\<lparr>the_store := s', currentDraft := None\<rparr>)))"

text \<open>
  The callback given to \<open>setTimeout\<close> does not test \<open>currentDraft\<close>. What it throws is
  caught by nobody.
\<close>

definition timer_callback :: "behaviour \<Rightarrow> invocation \<Rightarrow> invocation" where
  "timer_callback env w =
     (case flush_draft env w of
        (None, w') \<Rightarrow> w'
      | (Some e, w') \<Rightarrow> w'\<lparr>unhandled := unhandled w' @ [e]\<rparr>)"

definition fire_timer :: "behaviour \<Rightarrow> invocation \<Rightarrow> invocation" where
  "fire_timer env w = (if timeout w then timer_callback env (w\<lparr>timeout := False\<rparr>) else w)"

text \<open>
  The body of an action, as far as the store can tell. \<open>Touch es\<close> is a statement that
  goes through the \<open>state\<close> facade (the proxy's \<open>get\<close>, \<open>set\<close> or \<open>deleteProperty\<close> trap, each
  of which calls \<open>configureUpdate\<close> and then uses \<open>currentDraft\<close>) and makes the changes that
  the engine will report as the edit records \<open>es\<close>. \<open>Reuse es\<close> makes changes through a
  reference into the draft that the action kept from its latest facade access, without
  going through the facade. Either fails on a draft that has been finished. (A body has
  a reference to reuse only after a \<open>Touch\<close>; the properties below are about bodies that
  begin with one.)
\<close>

datatype instr = Touch "operation list" | Reuse "operation list"

definition mutate :: "operation list \<Rightarrow> invocation \<Rightarrow> invocation" where
  "mutate es w = w\<lparr>currentDraft := map_option (\<lambda>d. d\<lparr>pending := pending d @ es\<rparr>) (currentDraft w)\<rparr>"

text \<open>A statement gives back the error it threw, if any, and the closure variables it leaves.\<close>

fun run_instr :: "instr \<Rightarrow> invocation \<Rightarrow> thrown option \<times> invocation" where
  "run_instr (Touch es) w =
     (let w' = configureUpdate w
      in if revoked w' then (Some revoked_error, w') else (None, mutate es w'))"
| "run_instr (Reuse es) w =
     (if currentDraft w = None \<or> revoked w then (Some revoked_error, w) else (None, mutate es w))"

text \<open>Statements run in order; the first one that throws ends the run.\<close>

fun run_steps :: "instr list \<Rightarrow> invocation \<Rightarrow> thrown option \<times> invocation" where
  "run_steps [] w = (None, w)"
| "run_steps (i # is) w =
     (case run_instr i w of (Some e, w') \<Rightarrow> (Some e, w') | (None, w') \<Rightarrow> run_steps is w')"

text \<open>
  A function body ends by returning or by throwing. An action is an ordinary function
  that returns a value which is not a promise, or a function whose result is a promise:
  its first statements run during the call, every later group of statements after an
  \<open>await\<close>. The awaited promise settles either before the pending zero-delay timer of the
  invocation fires (it is already settled, or settles in the same turn of the event
  loop) or after it.
\<close>

datatype finish = Return | Throw thrown

datatype timing = BeforeTimer | AfterTimer

datatype action =
  SyncFn "instr list" finish
| AsyncFn "instr list" "(timing \<times> instr list) list" finish

text \<open>
  What the caller of the wrapped action gets: a value, an exception, or the promise
  \<open>actionResult\<close> (here with what is left of the body that will settle it).
\<close>

datatype call_result =
  Value
| Raised thrown
| Promise "(timing \<times> instr list) list" finish

text \<open>
  \<open>func(...)\<close>, followed by the branch on \<open>actionResult instanceof Promise\<close>. An
  exception of \<open>func\<close> leaves the wrapped action at once, and so does one of the flush in
  the synchronous branch. For a promise the callbacks are attached and nothing else
  happens during the call.
\<close>

definition flush_now :: "behaviour \<Rightarrow> invocation \<Rightarrow> thrown option \<times> invocation" where
  "flush_now env w =
     (if currentDraft w \<noteq> None
      then flush_draft env (w\<lparr>timeout := False\<rparr>)
      else (None, w\<lparr>timeout := False\<rparr>))"

definition call_action :: "behaviour \<Rightarrow> action \<Rightarrow> invocation \<Rightarrow> call_result \<times> invocation" where
  "call_action env act w =
     (case act of
        SyncFn steps fin \<Rightarrow>
          (case run_steps steps w of
             (Some e, w') \<Rightarrow> (Raised e, w')
           | (None, w') \<Rightarrow>
               (case fin of
                  Throw e \<Rightarrow> (Raised e, w')
                | Return \<Rightarrow>
                    (case flush_now env w' of
                       (Some e, w'') \<Rightarrow> (Raised e, w'')
                     | (None, w'') \<Rightarrow> (Value, w''))))
      | AsyncFn steps phases fin \<Rightarrow>
          (case run_steps steps w of
             (Some e, w') \<Rightarrow> (Promise [] (Throw e), w')
           | (None, w') \<Rightarrow> (Promise phases fin, w')))"

text \<open>\<open>String.prototype.indexOf\<close>.\<close>

fun starts_with :: "string \<Rightarrow> string \<Rightarrow> bool" where
  "starts_with s [] = True"
| "starts_with [] (c # cs) = False"
| "starts_with (x # xs) (c # cs) = (x = c \<and> starts_with xs cs)"

fun str_indexOf :: "string \<Rightarrow> string \<Rightarrow> int" where
  "str_indexOf [] needle = (if needle = [] then 0 else - 1)"
| "str_indexOf (x # xs) needle =
     (if starts_with (x # xs) needle then 0
      else (let i = str_indexOf xs needle in if i < 0 then - 1 else i + 1))"

text \<open>
  The \<open>.catch\<close> callback gets the reason of a rejection and always throws: the error that
  names the action when the message has \<open>proxy that has been revoked\<close> past its first
  character, the reason itself otherwise.
\<close>

definition disposed_message :: "string \<Rightarrow> string" where
  "disposed_message nm =
     ''You are asynchronously changing state in the action '' @ [CHR 0x22] @ nm @ [CHR 0x22] @
     ''. Make sure you point to '' @ [CHR 0x22] @ ''state'' @ [CHR 0x22] @
     '' again as the previous state draft has been disposed''"

definition catch_callback :: "string \<Rightarrow> thrown \<Rightarrow> thrown" where
  "catch_callback nm error =
     (case error of
        JsError message \<Rightarrow>
          (if str_indexOf message ''proxy that has been revoked'' > 0
           then JsError (disposed_message nm)
           else error)
      | JsOther \<Rightarrow> undefined_error)"

text \<open>
  The \<open>.then\<close> callback runs when \<open>actionResult\<close> is fulfilled. What it throws rejects the
  promise \<open>.then\<close> returned, so the \<open>.catch\<close> callback runs on it and rejects the dropped
  chain. When \<open>actionResult\<close> is rejected the \<open>.catch\<close> callback runs on its reason.
\<close>

definition then_callback :: "behaviour \<Rightarrow> invocation \<Rightarrow> invocation" where
  "then_callback env w =
     (let w' = w\<lparr>timeout := False\<rparr>
      in if currentDraft w' \<noteq> None
         then (case flush_draft env w' of
                 (None, w'') \<Rightarrow> w''
               | (Some e, w'') \<Rightarrow>
                   w''\<lparr>unhandled := unhandled w'' @ [catch_callback (action_name w'') e]\<rparr>)
         else w')"

text \<open>
  After the call the event loop goes on. The rest of an asynchronous body runs phase by
  phase; where the awaited promise settles after the timer, a pending timer fires first.
  When the body has ended, \<open>actionResult\<close> settles and its callbacks run before any
  timer. A timer that is still pending then fires.
\<close>

datatype settlement = Fulfilled | Rejected thrown

fun run_phases ::
  "behaviour \<Rightarrow> (timing \<times> instr list) list \<Rightarrow> finish \<Rightarrow> invocation \<Rightarrow> finish \<times> invocation"
where
  "run_phases env [] fin w = (fin, w)"
| "run_phases env ((t, steps) # phases) fin w =
     (case run_steps steps (if t = AfterTimer then fire_timer env w else w) of
        (Some e, w') \<Rightarrow> (Throw e, w')
      | (None, w') \<Rightarrow> run_phases env phases fin w')"

definition settle :: "behaviour \<Rightarrow> finish \<Rightarrow> invocation \<Rightarrow> settlement \<times> invocation" where
  "settle env fin w =
     (case fin of
        Return \<Rightarrow> (Fulfilled, then_callback env w)
      | Throw e \<Rightarrow> (Rejected e, w\<lparr>unhandled := unhandled w @ [catch_callback (action_name w) e]\<rparr>))"

definition run_loop ::
  "behaviour \<Rightarrow> call_result \<Rightarrow> invocation \<Rightarrow> settlement option \<times> invocation"
where
  "run_loop env r w =
     (case r of
        Promise phases fin \<Rightarrow>
          (let (fin', w1) = run_phases env phases fin w;
               (st, w2) = settle env fin' w1
           in (Some st, fire_timer env w2))
      | _ \<Rightarrow> (None, fire_timer env w))"

text \<open>A whole invocation: the call as the caller sees it, then the event loop until nothing is pending.\<close>

definition run_action ::
  "behaviour \<Rightarrow> string \<Rightarrow> action \<Rightarrow> store \<Rightarrow> call_result \<times> settlement option \<times> invocation"
where
  "run_action env nm act s =
     (let (r, w) = call_action env act (invoke nm s);
          (st, w') = run_loop env r w
      in (r, st, w'))"

definition commits :: "event list \<Rightarrow> nat" where
  "commits tr = length (filter (\<lambda>e. case e of Mutations n ps \<Rightarrow> True | _ \<Rightarrow> False) tr)"

text \<open>
  Notions used to state properties of an action body: the edit records its statements
  make, whether a statement goes through the facade, and whether the first statement does.
\<close>

fun edits :: "instr \<Rightarrow> operation list" where
  "edits (Touch es) = es"
| "edits (Reuse es) = es"

definition edits_of :: "instr list \<Rightarrow> operation list" where
  "edits_of steps = concat (map edits steps)"

fun is_touch :: "instr \<Rightarrow> bool" where
  "is_touch (Touch es) = True"
| "is_touch (Reuse es) = False"

definition touches :: "instr list \<Rightarrow> bool" where
  "touches steps = list_ex is_touch steps"

fun starts_with_touch :: "instr list \<Rightarrow> bool" where
  "starts_with_touch [] = False"
| "starts_with_touch (i # is) = is_touch i"

section \<open>Properties of the path accumulator\<close>

lemma set_set_add: "set (set_add xs x) = insert x (set xs)"
  by (auto simp: set_add_def)

lemma distinct_set_add: "distinct xs \<Longrightarrow> distinct (set_add xs x)"
  by (simp add: set_add_def)

lemma distinct_add_operation: "distinct paths \<Longrightarrow> distinct (add_operation e paths)"
  by (simp add: add_operation_def distinct_set_add)

lemma distinct_fold_add_operation: "distinct acc \<Longrightarrow> distinct (fold add_operation ops acc)"
  by (induction ops arbitrary: acc) (simp_all add: distinct_add_operation)

lemma distinct_collect_paths: "distinct (collect_paths ops)"
  by (simp add: collect_paths_def distinct_fold_add_operation)

lemma set_fold_add_operation:
  "set (fold add_operation ops acc) =
     set acc \<union> (\<lambda>e. join (path e)) ` set ops
       \<union> (\<lambda>e. join (butlast (path e))) ` {e \<in> set ops. op e = Add \<or> op e = Remove}"
proof (induction ops arbitrary: acc)
  case Nil
  then show ?case by simp
next
  case (Cons e ops)
  have step: "set (add_operation e acc) =
      set acc \<union> {join (path e)} \<union> (if op e = Add \<or> op e = Remove then {join (butlast (path e))} else {})"
    by (auto simp: add_operation_def set_set_add)
  show ?case
    unfolding fold_simps Cons.IH step by auto
qed

lemma set_collect_paths:
  "set (collect_paths ops) =
     (\<lambda>e. join (path e)) ` set ops
       \<union> (\<lambda>e. join (butlast (path e))) ` {e \<in> set ops. op e = Add \<or> op e = Remove}"
  by (simp add: collect_paths_def set_fold_add_operation)

text \<open>
  Claim C1. The dirty paths of a commit are exactly the joined path of every edit record
  together with the joined parent path (all but the last segment) of every \<open>add\<close> and
  \<open>remove\<close> record; a \<open>replace\<close> record gives its own path only. When the engine reports
  the addition of \<open>newKey\<close> to \<open>obj\<close>, the set is \<open>{"obj.newKey", "obj"}\<close>.
\<close>

theorem getUpdate_dirty_paths:
  "set (snd (getUpdate d)) =
     (\<lambda>e. join (path e)) ` set (pending d)
       \<union> (\<lambda>e. join (butlast (path e))) ` {e \<in> set (pending d). op e = Add \<or> op e = Remove}
   \<and> set (snd (getUpdate \<lparr>base = st, pending = [\<lparr>op = Add, path = [Key ''obj'', Key ''newKey'']\<rparr>]\<rparr>))
       = {''obj.newKey'', ''obj''}"
proof
  show "set (snd (getUpdate d)) =
     (\<lambda>e. join (path e)) ` set (pending d)
       \<union> (\<lambda>e. join (butlast (path e))) ` {e \<in> set (pending d). op e = Add \<or> op e = Remove}"
    by (simp add: getUpdate_def finishDraft_def set_collect_paths)
  show "set (snd (getUpdate \<lparr>base = st, pending = [\<lparr>op = Add, path = [Key ''obj'', Key ''newKey'']\<rparr>]\<rparr>))
       = {''obj.newKey'', ''obj''}"
    by (auto simp add: getUpdate_def finishDraft_def collect_paths_def add_operation_def set_add_def)
qed

section \<open>Properties of notification\<close>


lemma registry_set_registry [simp]: "registry (set_registry r s) = r"
  by (simp add: set_registry_def registry_def)

lemma set_registry_twice [simp]: "set_registry r (set_registry r' s) = set_registry r s"
  by (simp add: set_registry_def)

lemma set_registry_trace [simp]:
  "set_registry r (s\<lparr>trace := tr\<rparr>) = (set_registry r s)\<lparr>trace := tr\<rparr>"
  "trace (set_registry r s) = trace s"
  "currentState (set_registry r s) = currentState s"
  "pathListeners (set_registry r s) = fst r"
  "globalListeners (set_registry r s) = snd r"
  by (simp_all add: set_registry_def)

lemma registry_trace [simp]: "registry (s\<lparr>trace := tr\<rparr>) = registry s"
  by (simp add: registry_def)

lemma map_of_put: "map_of (put k v kvs) = (map_of kvs)(k \<mapsto> v)"
  by (induction kvs) (auto simp: fun_eq_iff)

lemma bucket_put: "bucket (put k v pl) q = (if q = k then v else bucket pl q)"
  by (simp add: bucket_def map_of_put)

lemma get_property_Own: "map_of pl p = Some b \<Longrightarrow> get_property pl p = Own b"
  by (simp add: get_property_def)

lemma get_property_None:
  "map_of pl p = None \<Longrightarrow> get_property pl p = (if inherited p then Inherited else Undefined)"
  by (simp add: get_property_def)








section \<open>Properties of actions\<close>

lemma edits_of_simps [simp]:
  "edits_of [] = []"
  "edits_of (i # is) = edits i @ edits_of is"
  by (simp_all add: edits_of_def)

lemma touches_simps [simp]:
  "touches [] = False"
  "touches (i # is) = (is_touch i \<or> touches is)"
  by (simp_all add: touches_def)

lemma run_steps_open:
  "currentDraft w = Some d \<Longrightarrow> \<not> revoked w \<Longrightarrow>
   run_steps steps w =
     (None, w\<lparr>currentDraft := Some (d\<lparr>pending := pending d @ edits_of steps\<rparr>),
              timeout := timeout w \<or> touches steps\<rparr>)"
proof (induction steps arbitrary: w d)
  case Nil
  then show ?case by simp
next
  case (Cons i steps)
  show ?case
  proof (cases i)
    case (Touch es)
    let ?w1 = "w\<lparr>currentDraft := Some (d\<lparr>pending := pending d @ es\<rparr>), timeout := True\<rparr>"
    have r: "run_instr (Touch es) w = (None, ?w1)"
      using Cons.prems by (simp add: configureUpdate_def mutate_def)
    have "currentDraft ?w1 = Some (d\<lparr>pending := pending d @ es\<rparr>)" "\<not> revoked ?w1"
      using Cons.prems by simp_all
    from Cons.IH [OF this] show ?thesis
      using Touch by (simp add: r del: run_instr.simps)
  next
    case (Reuse es)
    let ?w1 = "w\<lparr>currentDraft := Some (d\<lparr>pending := pending d @ es\<rparr>)\<rparr>"
    have r: "run_instr (Reuse es) w = (None, ?w1)"
      using Cons.prems by (simp add: mutate_def)
    have "currentDraft ?w1 = Some (d\<lparr>pending := pending d @ es\<rparr>)" "\<not> revoked ?w1"
      using Cons.prems by simp_all
    from Cons.IH [OF this] show ?thesis
      using Reuse by (simp add: r del: run_instr.simps)
  qed
qed

lemma run_steps_closed:
  assumes "currentDraft w = None" and "\<not> revoked w" and "starts_with_touch steps"
  shows "run_steps steps w =
     (None, w\<lparr>currentDraft := Some \<lparr>base = currentState (the_store w), pending = edits_of steps\<rparr>,
              timeout := True\<rparr>)"
proof (cases steps)
  case Nil
  with assms show ?thesis by simp
next
  case (Cons i rest)
  with assms obtain es where i: "i = Touch es" by (cases i) simp_all
  let ?d = "\<lparr>base = currentState (the_store w), pending = es\<rparr>"
  let ?w1 = "w\<lparr>currentDraft := Some ?d, timeout := True\<rparr>"
  have r: "run_instr (Touch es) w = (None, ?w1)"
    using assms(1,2) by (simp add: configureUpdate_def mutate_def createDraft_def)
  have "currentDraft ?w1 = Some ?d" "\<not> revoked ?w1"
    using assms(2) by simp_all
  from run_steps_open [OF this, of rest] show ?thesis
    using Cons i by (simp add: r del: run_instr.simps)
qed

lemma run_steps_stale:
  "currentDraft w = None \<or> revoked w \<Longrightarrow> run_steps (Reuse es # rest) w = (Some revoked_error, w)"
  by auto

lemma run_steps_revoked:
  "currentDraft w = Some d \<Longrightarrow> revoked w \<Longrightarrow>
   run_steps (Touch es # rest) w = (Some revoked_error, w\<lparr>timeout := True\<rparr>)"
  by (simp add: configureUpdate_def)



subsection \<open>What a flush does to the trace and the state\<close>

lemma trace_call_update [simp]: "trace (call_update env upd s) = trace s"
  by (simp add: call_update_def set_registry_def)

lemma currentState_call_update [simp]: "currentState (call_update env upd s) = currentState s"
  by (simp add: call_update_def set_registry_def)

lemma commits_append [simp]: "commits (xs @ ys) = commits xs + commits ys"
  by (simp add: commits_def)

lemma commits_simps [simp]:
  "commits [] = 0"
  "commits (Mutations nm ps # tr) = Suc (commits tr)"
  "commits (Render i p # tr) = commits tr"
  "commits (GlobalRender u # tr) = commits tr"
  by (simp_all add: commits_def)

lemma forEach_bucket_frame:
  "commits (trace (forEach_bucket env p k n s)) = commits (trace s) \<and>
   currentState (forEach_bucket env p k n s) = currentState s"
  by (induction n arbitrary: k s) (simp_all add: Let_def)

lemma forEach_global_frame:
  "commits (trace (forEach_global env k n s)) = commits (trace s) \<and>
   currentState (forEach_global env k n s) = currentState s"
  by (induction n arbitrary: k s) (simp_all add: Let_def)

lemma notify_path_frame:
  "commits (trace (snd (notify_path env p s))) = commits (trace s) \<and>
   currentState (snd (notify_path env p s)) = currentState s"
  by (simp add: notify_path_def forEach_bucket_frame split: property.splits)

lemma notify_paths_frame:
  "commits (trace (snd (notify_paths env ps s))) = commits (trace s) \<and>
   currentState (snd (notify_paths env ps s)) = currentState s"
proof (induction ps arbitrary: s)
  case Nil
  then show ?case by simp
next
  case (Cons p ps)
  obtain e s' where n: "notify_path env p s = (e, s')" by (cases "notify_path env p s")
  with notify_path_frame [of env p s]
  have s': "commits (trace s') = commits (trace s)" "currentState s' = currentState s"
    by simp_all
  show ?case
  proof (cases e)
    case None
    with n Cons.IH [of s'] s' show ?thesis by simp
  next
    case (Some x)
    with n s' show ?thesis by simp
  qed
qed

lemma updateListeners_frame:
  "commits (trace (snd (updateListeners env paths s))) = commits (trace s) \<and>
   currentState (snd (updateListeners env paths s)) = currentState s"
proof -
  obtain e s' where n: "notify_paths env paths s = (e, s')" by (cases "notify_paths env paths s")
  with notify_paths_frame [of env paths s]
  have "commits (trace s') = commits (trace s)" "currentState s' = currentState s"
    by simp_all
  with n show ?thesis
    by (cases e) (simp_all add: updateListeners_def forEach_global_frame)
qed

lemma commits_flushMutations:
  "commits (trace (snd (flushMutations env d nm s))) = Suc (commits (trace s))"
  by (simp add: flushMutations_def split_beta Let_def updateListeners_frame)

lemma currentState_flushMutations:
  "currentState (snd (flushMutations env d nm s)) = base d @ pending d"
  by (simp add: flushMutations_def split_beta Let_def updateListeners_frame getUpdate_def finishDraft_def)


text \<open>The closure variables after the first statements of a fresh invocation.\<close>

lemma run_steps_invoke:
  assumes "starts_with_touch steps"
  shows "run_steps steps (invoke nm s) =
           (None, (invoke nm s)\<lparr>currentDraft := Some \<lparr>base = currentState s, pending = edits_of steps\<rparr>,
                                timeout := True\<rparr>)"
proof -
  have "currentDraft (invoke nm s) = None" "\<not> revoked (invoke nm s)"
    by (simp_all add: invoke_def)
  from run_steps_closed [OF this assms] show ?thesis
    by (simp add: invoke_def)
qed

text \<open>
  The flush of the open draft \<open>d\<close> of an invocation that has just run its first
  statements, by each of the three places that flush.
\<close>

lemma flush_draft_open:
  "flush_draft env
     \<lparr>the_store = s, action_name = nm, currentDraft = Some d, timeout = b, unhandled = u,
      revoked = False\<rparr> =
     (case flushMutations env d nm s of
        (None, s') \<Rightarrow>
          (None, \<lparr>the_store = s', action_name = nm, currentDraft = None, timeout = b,
                  unhandled = u, revoked = False\<rparr>)
      | (Some x, s') \<Rightarrow>
          (Some x, \<lparr>the_store = s', action_name = nm, currentDraft = Some d, timeout = b,
                    unhandled = u, revoked = True\<rparr>))"
  by (simp add: flush_draft_def split: prod.splits option.splits)

lemma fire_timer_open:
  "fire_timer env ((invoke nm s)\<lparr>currentDraft := Some d, timeout := True\<rparr>) =
     (case flushMutations env d nm s of
        (None, s') \<Rightarrow> invoke nm s'
      | (Some x, s') \<Rightarrow> (invoke nm s')\<lparr>currentDraft := Some d, revoked := True, unhandled := [x]\<rparr>)"
  by (simp add: fire_timer_def timer_callback_def flush_draft_open invoke_def
        split: prod.splits option.splits)

lemma then_callback_open:
  "then_callback env ((invoke nm s)\<lparr>currentDraft := Some d, timeout := True\<rparr>) =
     (case flushMutations env d nm s of
        (None, s') \<Rightarrow> invoke nm s'
      | (Some x, s') \<Rightarrow>
          (invoke nm s')\<lparr>currentDraft := Some d, revoked := True, unhandled := [catch_callback nm x]\<rparr>)"
  by (simp add: then_callback_def Let_def flush_draft_open invoke_def
        split: prod.splits option.splits)

lemma fire_timer_invoke: "fire_timer env (invoke nm s) = invoke nm s"
  by (simp add: fire_timer_def invoke_def)

lemma fire_timer_idle: "\<not> timeout w \<Longrightarrow> fire_timer env w = w"
  by (simp add: fire_timer_def)

lemma fire_timer_thrown:
  "fire_timer env ((invoke nm s)\<lparr>currentDraft := c, revoked := r, unhandled := u\<rparr>) =
     (invoke nm s)\<lparr>currentDraft := c, revoked := r, unhandled := u\<rparr>"
  by (simp add: fire_timer_def invoke_def)





subsection \<open>Promises, throws and the timer\<close>

lemma flush_draft_revoked:
  "currentDraft w = Some d \<Longrightarrow> revoked w \<Longrightarrow> flush_draft env w = (Some revoked_error, w)"
  by (simp add: flush_draft_def)

lemma catch_callback_revoked: "catch_callback nm revoked_error = JsError (disposed_message nm)"
  by (simp add: catch_callback_def revoked_error_def)

lemma revoked_not_disposed: "revoked_error \<noteq> JsError (disposed_message nm)"
  by (simp add: revoked_error_def disposed_message_def)

lemma call_async:
  assumes "starts_with_touch pre"
  shows "call_action env (AsyncFn pre phases fin) (invoke nm s) =
           (Promise phases fin,
            (invoke nm s)\<lparr>currentDraft := Some \<lparr>base = currentState s, pending = edits_of pre\<rparr>,
                          timeout := True\<rparr>)"
  using run_steps_invoke [OF assms] by (simp add: call_action_def)

lemma settle_rejected:
  "settle env (Throw e) w = (Rejected e, w\<lparr>unhandled := unhandled w @ [catch_callback (action_name w) e]\<rparr>)"
  by (simp add: settle_def)

text \<open>
  After a flush that threw, \<open>currentDraft\<close> still holds the finished draft, and the next
  access through the facade fails on it (with the timer armed again).
\<close>

lemma run_steps_after_throw:
  assumes "starts_with_touch post"
  shows "run_steps post ((invoke nm s)\<lparr>currentDraft := Some d, revoked := True, unhandled := u\<rparr>) =
           (Some revoked_error,
            (invoke nm s)\<lparr>currentDraft := Some d, revoked := True, unhandled := u, timeout := True\<rparr>)"
proof -
  from assms obtain es rest where post: "post = Touch es # rest"
    by (cases post; cases "hd post") auto
  let ?w = "(invoke nm s)\<lparr>currentDraft := Some d, revoked := True, unhandled := u\<rparr>"
  have "currentDraft ?w = Some d" "revoked ?w" by simp_all
  from run_steps_revoked [OF this] show ?thesis
    unfolding post by simp
qed

text \<open>
  Claim C3, as amended. An action that goes through the facade, awaits a promise and goes
  through the facade again before it completes makes exactly two commits when the awaited
  promise settles after the zero-delay timer has fired and the notifications of the first
  commit do not throw: the timer commits the changes made before the \<open>await\<close>, and the
  \<open>.then\<close> callback commits the later ones when the action's promise is fulfilled. When the
  awaited promise settles before the timer fires, the draft is still open on resumption
  and all changes go into a single commit. (When the notifications of the first commit
  throw, which they do for a dirty path that names a member of \<open>Object.prototype\<close>, the
  finished draft stays in \<open>currentDraft\<close>, the second access fails on it and the action's
  promise is rejected: one commit.)
\<close>

theorem async_two_commits:
  assumes "starts_with_touch pre" and "starts_with_touch post"
  shows "run_action env nm (AsyncFn pre [(AfterTimer, post)] Return) s =
           (case flushMutations env \<lparr>base = currentState s, pending = edits_of pre\<rparr> nm s of
              (None, s1) \<Rightarrow>
                (Promise [(AfterTimer, post)] Return, Some Fulfilled,
                 case flushMutations env
                        \<lparr>base = currentState s @ edits_of pre, pending = edits_of post\<rparr> nm s1 of
                   (None, s2) \<Rightarrow> invoke nm s2
                 | (Some x, s2) \<Rightarrow>
                     (invoke nm s2)
                       \<lparr>currentDraft := Some \<lparr>base = currentState s @ edits_of pre, pending = edits_of post\<rparr>,
                        revoked := True, unhandled := [catch_callback nm x]\<rparr>)
            | (Some x, s1) \<Rightarrow>
                (Promise [(AfterTimer, post)] Return, Some (Rejected revoked_error),
                 (invoke nm s1)
                   \<lparr>currentDraft := Some \<lparr>base = currentState s, pending = edits_of pre\<rparr>,
                    revoked := True,
                    unhandled := [x, JsError (disposed_message nm), revoked_error]\<rparr>))
       \<and> commits (trace (the_store (snd (snd (run_action env nm (AsyncFn pre [(AfterTimer, post)] Return) s))))) =
           commits (trace s) +
             (if fst (flushMutations env \<lparr>base = currentState s, pending = edits_of pre\<rparr> nm s) = None
              then 2 else 1)
       \<and> run_action env nm (AsyncFn pre [(BeforeTimer, post)] Return) s =
           (Promise [(BeforeTimer, post)] Return, Some Fulfilled,
            case flushMutations env
                   \<lparr>base = currentState s, pending = edits_of pre @ edits_of post\<rparr> nm s of
              (None, s') \<Rightarrow> invoke nm s'
            | (Some x, s') \<Rightarrow>
                (invoke nm s')
                  \<lparr>currentDraft := Some \<lparr>base = currentState s, pending = edits_of pre @ edits_of post\<rparr>,
                   revoked := True, unhandled := [catch_callback nm x]\<rparr>)
       \<and> commits (trace (the_store (snd (snd (run_action env nm (AsyncFn pre [(BeforeTimer, post)] Return) s))))) =
           commits (trace s) + 1"
proof -
  let ?d1 = "\<lparr>base = currentState s, pending = edits_of pre\<rparr>"
  let ?w1 = "(invoke nm s)\<lparr>currentDraft := Some ?d1, timeout := True\<rparr>"
  let ?d2 = "\<lparr>base = currentState s @ edits_of pre, pending = edits_of post\<rparr>"
  let ?d3 = "\<lparr>base = currentState s, pending = edits_of pre @ edits_of post\<rparr>"
  have c: "\<And>phases. call_action env (AsyncFn pre phases Return) (invoke nm s) = (Promise phases Return, ?w1)"
    by (rule call_async [OF assms(1)])
  obtain e1 s1 where f1: "flushMutations env ?d1 nm s = (e1, s1)"
    by (cases "flushMutations env ?d1 nm s")
  have cs1: "currentState s1 = currentState s @ edits_of pre"
    using currentState_flushMutations [of env ?d1 nm s] f1 by simp
  have n1: "commits (trace s1) = Suc (commits (trace s))"
    using commits_flushMutations [of env ?d1 nm s] f1 by simp
  \<comment> \<open>the awaited promise settles after the timer\<close>
  have after: "run_action env nm (AsyncFn pre [(AfterTimer, post)] Return) s =
           (case (e1, s1) of
              (None, s1) \<Rightarrow>
                (Promise [(AfterTimer, post)] Return, Some Fulfilled,
                 case flushMutations env ?d2 nm s1 of
                   (None, s2) \<Rightarrow> invoke nm s2
                 | (Some x, s2) \<Rightarrow>
                     (invoke nm s2)\<lparr>currentDraft := Some ?d2, revoked := True,
                                    unhandled := [catch_callback nm x]\<rparr>)
            | (Some x, s1) \<Rightarrow>
                (Promise [(AfterTimer, post)] Return, Some (Rejected revoked_error),
                 (invoke nm s1)\<lparr>currentDraft := Some ?d1, revoked := True,
                                unhandled := [x, JsError (disposed_message nm), revoked_error]\<rparr>))"
  proof (cases e1)
    case None
    have f: "fire_timer env ?w1 = invoke nm s1"
      by (simp add: fire_timer_open f1 None)
    have p: "run_steps post (invoke nm s1) =
               (None, (invoke nm s1)\<lparr>currentDraft := Some ?d2, timeout := True\<rparr>)"
      using run_steps_invoke [OF assms(2), of nm s1] by (simp add: cs1)
    have ph: "run_phases env [(AfterTimer, post)] Return ?w1 =
                (Return, (invoke nm s1)\<lparr>currentDraft := Some ?d2, timeout := True\<rparr>)"
      by (simp add: f p)
    obtain e2 s2 where f2: "flushMutations env ?d2 nm s1 = (e2, s2)"
      by (cases "flushMutations env ?d2 nm s1")
    let ?w3 = "case (e2, s2) of
                 (None, s2) \<Rightarrow> invoke nm s2
               | (Some x, s2) \<Rightarrow>
                   (invoke nm s2)\<lparr>currentDraft := Some ?d2, revoked := True,
                                  unhandled := [catch_callback nm x]\<rparr>"
    have st: "settle env Return ((invoke nm s1)\<lparr>currentDraft := Some ?d2, timeout := True\<rparr>) =
                (Fulfilled, ?w3)"
      by (simp add: settle_def then_callback_open f2)
    show ?thesis
      unfolding run_action_def c
      by (cases e2)
         (simp_all add: run_loop_def ph st None f2 fire_timer_invoke fire_timer_thrown
            del: run_phases.simps)
  next
    case (Some x)
    let ?wt = "(invoke nm s1)\<lparr>currentDraft := Some ?d1, revoked := True, unhandled := [x]\<rparr>"
    have f: "fire_timer env ?w1 = ?wt"
      by (simp add: fire_timer_open f1 Some)
    have p: "run_steps post ?wt = (Some revoked_error, ?wt\<lparr>timeout := True\<rparr>)"
      by (rule run_steps_after_throw [OF assms(2)])
    have ph: "run_phases env [(AfterTimer, post)] Return ?w1 = (Throw revoked_error, ?wt\<lparr>timeout := True\<rparr>)"
      by (simp add: f p)
    have st: "settle env (Throw revoked_error) (?wt\<lparr>timeout := True\<rparr>) =
                (Rejected revoked_error,
                 ?wt\<lparr>timeout := True, unhandled := [x, JsError (disposed_message nm)]\<rparr>)"
      by (simp add: settle_rejected catch_callback_revoked invoke_def)
    show ?thesis
      unfolding run_action_def c
      apply (simp add: run_loop_def ph st Some del: run_phases.simps)
      apply (simp add: fire_timer_def timer_callback_def flush_draft_def invoke_def)
      done
  qed
  have n_after: "commits (trace (the_store (snd (snd (run_action env nm (AsyncFn pre [(AfterTimer, post)] Return) s))))) =
                   commits (trace s) + (if e1 = None then 2 else 1)"
  proof (cases e1)
    case None
    obtain e2 s2 where f2: "flushMutations env ?d2 nm s1 = (e2, s2)"
      by (cases "flushMutations env ?d2 nm s1")
    have "commits (trace s2) = Suc (commits (trace s1))"
      using commits_flushMutations [of env ?d2 nm s1] f2 by simp
    with n1 show ?thesis
      unfolding after by (cases e2) (simp_all add: None f2 invoke_def)
  next
    case (Some x)
    with n1 show ?thesis
      unfolding after by (simp add: invoke_def)
  qed
  \<comment> \<open>the awaited promise settles before the timer: the draft stays open\<close>
  have "currentDraft ?w1 = Some ?d1" "\<not> revoked ?w1" by (simp_all add: invoke_def)
  from run_steps_open [OF this, of post]
  have q: "run_steps post ?w1 = (None, (invoke nm s)\<lparr>currentDraft := Some ?d3, timeout := True\<rparr>)"
    by (simp add: invoke_def)
  have ph': "run_phases env [(BeforeTimer, post)] Return ?w1 =
              (Return, (invoke nm s)\<lparr>currentDraft := Some ?d3, timeout := True\<rparr>)"
    by (simp add: q)
  obtain e3 s3 where f3: "flushMutations env ?d3 nm s = (e3, s3)"
    by (cases "flushMutations env ?d3 nm s")
  let ?w3 = "case (e3, s3) of
               (None, s') \<Rightarrow> invoke nm s'
             | (Some x, s') \<Rightarrow>
                 (invoke nm s')\<lparr>currentDraft := Some ?d3, revoked := True,
                                unhandled := [catch_callback nm x]\<rparr>"
  have st': "settle env Return ((invoke nm s)\<lparr>currentDraft := Some ?d3, timeout := True\<rparr>) =
              (Fulfilled, ?w3)"
    by (simp add: settle_def then_callback_open f3)

  have before: "run_action env nm (AsyncFn pre [(BeforeTimer, post)] Return) s =
           (Promise [(BeforeTimer, post)] Return, Some Fulfilled, ?w3)"
    unfolding run_action_def c
    by (cases e3)
       (simp_all add: run_loop_def ph' st' fire_timer_invoke fire_timer_thrown
          del: run_phases.simps)
  have n3: "commits (trace s3) = Suc (commits (trace s))"
    using commits_flushMutations [of env ?d3 nm s] f3 by simp
  have n_before: "commits (trace (the_store (snd (snd (run_action env nm (AsyncFn pre [(BeforeTimer, post)] Return) s))))) =
                    commits (trace s) + 1"
    unfolding before using n3 by (cases e3) (simp_all add: invoke_def)
  from after n_after before n_before show ?thesis
    by (simp add: f1 f3)
qed

theorem async_two_commits_witness:
  "run_action (\<lambda>upd r. r) ''act''
     (AsyncFn [Touch [\<lparr>op = Replace, path = [Key ''a'']\<rparr>]]
              [(AfterTimer, [Touch [\<lparr>op = Replace, path = [Key ''b'']\<rparr>]])] Return)
     (createStore [])
   = (Promise [(AfterTimer, [Touch [\<lparr>op = Replace, path = [Key ''b'']\<rparr>]])] Return, Some Fulfilled,
      invoke ''act''
        \<lparr>currentState = [\<lparr>op = Replace, path = [Key ''a'']\<rparr>, \<lparr>op = Replace, path = [Key ''b'']\<rparr>],
         pathListeners = [], globalListeners = [], allocated = 0,
         trace = [Mutations ''act'' [''a''], Mutations ''act'' [''b'']]\<rparr>)"
proof -
  let ?env = "(\<lambda>upd r. r) :: behaviour"
  let ?pre = "[Touch [\<lparr>op = Replace, path = [Key ''a'']\<rparr>]]"
  let ?post = "[Touch [\<lparr>op = Replace, path = [Key ''b'']\<rparr>]]"
  let ?s1 = "\<lparr>currentState = [\<lparr>op = Replace, path = [Key ''a'']\<rparr>],
              pathListeners = [], globalListeners = [], allocated = 0,
              trace = [Mutations ''act'' [''a'']]\<rparr>"
  have first: "flushMutations ?env
                 \<lparr>base = currentState (createStore []), pending = edits_of ?pre\<rparr> ''act'' (createStore []) =
               (None, ?s1)"
    by code_simp
  have second: "flushMutations ?env
                  \<lparr>base = currentState (createStore []) @ edits_of ?pre, pending = edits_of ?post\<rparr>
                  ''act'' ?s1 =
                (None,
                 \<lparr>currentState = [\<lparr>op = Replace, path = [Key ''a'']\<rparr>, \<lparr>op = Replace, path = [Key ''b'']\<rparr>],
                  pathListeners = [], globalListeners = [], allocated = 0,
                  trace = [Mutations ''act'' [''a''], Mutations ''act'' [''b'']]\<rparr>)"
    by code_simp
  have "starts_with_touch ?pre" "starts_with_touch ?post" by simp_all
  from async_two_commits [OF this, of ?env "''act''" "createStore []"] first second
  show ?thesis by simp
qed

text \<open>
  The claim as stated ("exactly two commits") fails for an awaited promise that is
  already settled: one commit.
\<close>

theorem async_one_commit_counterexample:
  "commits (trace (the_store (snd (snd
     (run_action (\<lambda>upd r. r) ''act''
        (AsyncFn [Touch [\<lparr>op = Replace, path = [Key ''a'']\<rparr>]]
                 [(BeforeTimer, [Touch [\<lparr>op = Replace, path = [Key ''b'']\<rparr>]])] Return)
        (createStore [])))))) = 1"
  by code_simp

text \<open>
  Claim C4, as amended. When the action's result is a promise, the timer armed during the
  synchronous phase is still pending when the wrapped action returns, and nothing has been
  committed. The \<open>.then\<close> callback, which runs when the promise is fulfilled, cancels the
  timer and commits a draft that is still open (a throw of that commit goes through the
  \<open>.catch\<close> callback into the dropped chain and leaves the draft in \<open>currentDraft\<close>). A
  rejection runs the \<open>.catch\<close> callback only: it neither cancels the timer nor commits. A
  timer that fires first commits the draft; so after a rejection during the synchronous
  phase it is the timer that commits.
\<close>

theorem awaitable_keeps_timer:
  assumes "starts_with_touch pre"
  shows "call_action env (AsyncFn pre phases fin) (invoke nm s) =
           (Promise phases fin,
            (invoke nm s)\<lparr>currentDraft := Some \<lparr>base = currentState s, pending = edits_of pre\<rparr>,
                          timeout := True\<rparr>)
       \<and> settle env Return w =
           (Fulfilled,
            case currentDraft w of
              None \<Rightarrow> w\<lparr>timeout := False\<rparr>
            | Some d \<Rightarrow>
                if revoked w
                then w\<lparr>timeout := False,
                       unhandled := unhandled w @ [catch_callback (action_name w) revoked_error]\<rparr>
                else (case flushMutations env d (action_name w) (the_store w) of
                        (None, s') \<Rightarrow> w\<lparr>timeout := False, the_store := s', currentDraft := None\<rparr>
                      | (Some x, s') \<Rightarrow>
                          w\<lparr>timeout := False, the_store := s', revoked := True,
                            unhandled := unhandled w @ [catch_callback (action_name w) x]\<rparr>))
       \<and> settle env (Throw e) w =
           (Rejected e, w\<lparr>unhandled := unhandled w @ [catch_callback (action_name w) e]\<rparr>)
       \<and> fire_timer env
             ((invoke nm s)\<lparr>currentDraft := Some \<lparr>base = currentState s, pending = edits_of pre\<rparr>,
                           timeout := True\<rparr>) =
           (case flushMutations env \<lparr>base = currentState s, pending = edits_of pre\<rparr> nm s of
              (None, s') \<Rightarrow> invoke nm s'
            | (Some x, s') \<Rightarrow>
                (invoke nm s')
                  \<lparr>currentDraft := Some \<lparr>base = currentState s, pending = edits_of pre\<rparr>,
                   revoked := True, unhandled := [x]\<rparr>)
       \<and> run_action env nm (AsyncFn pre [] (Throw e)) s =
           (Promise [] (Throw e), Some (Rejected e),
            case flushMutations env \<lparr>base = currentState s, pending = edits_of pre\<rparr> nm s of
              (None, s') \<Rightarrow> (invoke nm s')\<lparr>unhandled := [catch_callback nm e]\<rparr>
            | (Some x, s') \<Rightarrow>
                (invoke nm s')
                  \<lparr>currentDraft := Some \<lparr>base = currentState s, pending = edits_of pre\<rparr>,
                   revoked := True, unhandled := [catch_callback nm e, x]\<rparr>)"
proof -
  let ?d = "\<lparr>base = currentState s, pending = edits_of pre\<rparr>"
  let ?w1 = "(invoke nm s)\<lparr>currentDraft := Some ?d, timeout := True\<rparr>"
  have fulfilled: "settle env Return w =
           (Fulfilled,
            case currentDraft w of
              None \<Rightarrow> w\<lparr>timeout := False\<rparr>
            | Some d \<Rightarrow>
                if revoked w
                then w\<lparr>timeout := False,
                       unhandled := unhandled w @ [catch_callback (action_name w) revoked_error]\<rparr>
                else (case flushMutations env d (action_name w) (the_store w) of
                        (None, s') \<Rightarrow> w\<lparr>timeout := False, the_store := s', currentDraft := None\<rparr>
                      | (Some x, s') \<Rightarrow>
                          w\<lparr>timeout := False, the_store := s', revoked := True,
                            unhandled := unhandled w @ [catch_callback (action_name w) x]\<rparr>))"
    by (simp add: settle_def then_callback_def flush_draft_def Let_def
          split: option.splits prod.splits)
  have c: "call_action env (AsyncFn pre [] (Throw e)) (invoke nm s) = (Promise [] (Throw e), ?w1)"
    by (rule call_async [OF assms])
  have r: "run_action env nm (AsyncFn pre [] (Throw e)) s =
           (Promise [] (Throw e), Some (Rejected e),
            case flushMutations env ?d nm s of
              (None, s') \<Rightarrow> (invoke nm s')\<lparr>unhandled := [catch_callback nm e]\<rparr>
            | (Some x, s') \<Rightarrow>
                (invoke nm s')\<lparr>currentDraft := Some ?d, revoked := True,
                               unhandled := [catch_callback nm e, x]\<rparr>)"
    unfolding run_action_def c
    apply (simp add: run_loop_def settle_rejected)
    apply (simp add: fire_timer_def timer_callback_def flush_draft_def invoke_def
             split: prod.splits option.splits)
    done
  from call_async [OF assms, of env phases fin nm s] fulfilled settle_rejected [of env e w]
    fire_timer_open [where env = env and nm = nm and s = s and d = "?d"] r
  show ?thesis by simp
qed

theorem awaitable_keeps_timer_witness:
  "call_action (\<lambda>upd r. r)
     (AsyncFn [Touch [\<lparr>op = Replace, path = [Key ''a'']\<rparr>]] [(AfterTimer, [])] Return)
     (invoke ''act'' (createStore []))
   = (Promise [(AfterTimer, [])] Return,
      \<lparr>the_store = createStore [], action_name = ''act'',
       currentDraft = Some \<lparr>base = [], pending = [\<lparr>op = Replace, path = [Key ''a'']\<rparr>]\<rparr>,
       timeout = True, unhandled = [], revoked = False\<rparr>)"
  using awaitable_keeps_timer
    [where pre = "[Touch [\<lparr>op = Replace, path = [Key ''a'']\<rparr>]]" and env = "\<lambda>upd r. r"
       and phases = "[(AfterTimer, [])]" and fin = Return and nm = "''act''" and s = "createStore []"]
  by (simp add: invoke_def createStore_def finishDraft_def createDraft_def)

text \<open>
  The claim as stated fails for an asynchronous action that changes state and is then
  rejected: the timer is still armed when the call returns, and when the promise settles
  the open draft is not committed.
\<close>

theorem awaitable_timer_counterexample:
  "(case call_action (\<lambda>upd r. r)
           (AsyncFn [Touch [\<lparr>op = Replace, path = [Key ''a'']\<rparr>]] [] (Throw (JsError ''boom'')))
           (invoke ''act'' (createStore [])) of
      (r, w) \<Rightarrow>
        (case settle (\<lambda>upd r. r) (Throw (JsError ''boom'')) w of
           (st, w') \<Rightarrow> (r, timeout w, st, currentDraft w', timeout w', trace (the_store w'))))
   = (Promise [] (Throw (JsError ''boom'')), True, Rejected (JsError ''boom''),
      Some \<lparr>base = [], pending = [\<lparr>op = Replace, path = [Key ''a'']\<rparr>]\<rparr>, True, [])"
  by code_simp

text \<open>
  Claim C8, as amended. An action that goes through the facade and then throws
  synchronously: the error reaches the caller unchanged and nothing is committed or
  notified during the call, but the timer stays armed with the draft open; when it fires,
  the changes made before the throw are committed, with one round of notifications (what
  that round throws is an uncaught error of the timer callback).
\<close>

theorem sync_throw_commits_later:
  assumes "starts_with_touch steps"
  shows "call_action env (SyncFn steps (Throw e)) (invoke nm s) =
           (Raised e,
            (invoke nm s)\<lparr>currentDraft := Some \<lparr>base = currentState s, pending = edits_of steps\<rparr>,
                          timeout := True\<rparr>)
       \<and> run_action env nm (SyncFn steps (Throw e)) s =
           (Raised e, None,
            case flushMutations env \<lparr>base = currentState s, pending = edits_of steps\<rparr> nm s of
              (None, s') \<Rightarrow> invoke nm s'
            | (Some x, s') \<Rightarrow>
                (invoke nm s')
                  \<lparr>currentDraft := Some \<lparr>base = currentState s, pending = edits_of steps\<rparr>,
                   revoked := True, unhandled := [x]\<rparr>)
       \<and> commits (trace (the_store (snd (snd (run_action env nm (SyncFn steps (Throw e)) s))))) =
           commits (trace s) + 1
       \<and> currentState (the_store (snd (snd (run_action env nm (SyncFn steps (Throw e)) s)))) =
           currentState s @ edits_of steps"
proof -
  let ?d = "\<lparr>base = currentState s, pending = edits_of steps\<rparr>"
  let ?w1 = "(invoke nm s)\<lparr>currentDraft := Some ?d, timeout := True\<rparr>"
  from run_steps_invoke [OF assms, of nm s]
  have c: "call_action env (SyncFn steps (Throw e)) (invoke nm s) = (Raised e, ?w1)"
    by (simp add: call_action_def)
  obtain x s' where f: "flushMutations env ?d nm s = (x, s')"
    by (cases "flushMutations env ?d nm s")
  have r: "run_action env nm (SyncFn steps (Throw e)) s =
             (Raised e, None,
              case flushMutations env ?d nm s of
                (None, s') \<Rightarrow> invoke nm s'
              | (Some x, s') \<Rightarrow>
                  (invoke nm s')\<lparr>currentDraft := Some ?d, revoked := True, unhandled := [x]\<rparr>)"
    unfolding run_action_def c by (simp add: run_loop_def fire_timer_open)
  have n: "commits (trace s') = Suc (commits (trace s))"
    using commits_flushMutations [of env ?d nm s] f by simp
  have st: "currentState s' = currentState s @ edits_of steps"
    using currentState_flushMutations [of env ?d nm s] f by simp
  show ?thesis
    unfolding r c using n st by (cases x) (simp_all add: f invoke_def)
qed

theorem sync_throw_commits_later_witness:
  "run_action (\<lambda>upd r. r) ''act''
     (SyncFn [Touch [\<lparr>op = Replace, path = [Key ''a'']\<rparr>]] (Throw (JsError ''boom'')))
     (createStore [])
   = (Raised (JsError ''boom''), None,
      invoke ''act''
        \<lparr>currentState = [\<lparr>op = Replace, path = [Key ''a'']\<rparr>],
         pathListeners = [], globalListeners = [], allocated = 0,
         trace = [Mutations ''act'' [''a'']]\<rparr>)"
proof -
  let ?env = "(\<lambda>upd r. r) :: behaviour"
  let ?steps = "[Touch [\<lparr>op = Replace, path = [Key ''a'']\<rparr>]]"
  have flush: "flushMutations ?env
                 \<lparr>base = currentState (createStore []), pending = edits_of ?steps\<rparr> ''act''
                 (createStore []) =
               (None,
                \<lparr>currentState = [\<lparr>op = Replace, path = [Key ''a'']\<rparr>],
                 pathListeners = [], globalListeners = [], allocated = 0,
                 trace = [Mutations ''act'' [''a'']]\<rparr>)"
    by code_simp
  have "starts_with_touch ?steps" by simp
  from sync_throw_commits_later [OF this, of ?env "JsError ''boom''" "''act''" "createStore []"] flush
  show ?thesis by simp
qed

text \<open>
  The claim as stated ("no commit ever, the state remains the snapshot from before the
  action") fails: after the timer has fired there is one commit and the state holds the
  change made before the throw.
\<close>

theorem sync_throw_counterexample:
  "(case run_action (\<lambda>upd r. r) ''act''
           (SyncFn [Touch [\<lparr>op = Replace, path = [Key ''a'']\<rparr>]] (Throw (JsError ''boom'')))
           (createStore []) of
      (r, st, w) \<Rightarrow> (r, commits (trace (the_store w)), currentState (the_store w)))
   = (Raised (JsError ''boom''), 1, [\<lparr>op = Replace, path = [Key ''a'']\<rparr>])"
  by code_simp

text \<open>
  Claim C9, as amended. A continuation that resumes after the timer has committed and
  uses the reference it kept into the finished draft: the promise returned to the caller
  is rejected with the runtime's own revoked-proxy error, unchanged. The error that names
  the action and says to point to \<open>state\<close> again is thrown by the \<open>.catch\<close> callback on the
  promise chain that the store drops, so it ends as an unhandled rejection. No draft is
  opened and the stale changes are not committed (what the notifications of the timer's
  commit threw is one more uncaught error, before that one).
\<close>

theorem stale_draft_rejects:
  assumes "starts_with_touch pre"
  shows "run_action env nm (AsyncFn pre ((AfterTimer, Reuse es # rest) # phases) fin) s =
           (Promise ((AfterTimer, Reuse es # rest) # phases) fin, Some (Rejected revoked_error),
            case flushMutations env \<lparr>base = currentState s, pending = edits_of pre\<rparr> nm s of
              (None, s1) \<Rightarrow> (invoke nm s1)\<lparr>unhandled := [JsError (disposed_message nm)]\<rparr>
            | (Some x, s1) \<Rightarrow>
                (invoke nm s1)
                  \<lparr>currentDraft := Some \<lparr>base = currentState s, pending = edits_of pre\<rparr>,
                   revoked := True, unhandled := [x, JsError (disposed_message nm)]\<rparr>)
       \<and> revoked_error \<noteq> JsError (disposed_message nm)"
proof -
  let ?d1 = "\<lparr>base = currentState s, pending = edits_of pre\<rparr>"
  let ?w1 = "(invoke nm s)\<lparr>currentDraft := Some ?d1, timeout := True\<rparr>"
  let ?ps = "(AfterTimer, Reuse es # rest) # phases"
  have c: "call_action env (AsyncFn pre ?ps fin) (invoke nm s) = (Promise ?ps fin, ?w1)"
    by (rule call_async [OF assms])
  obtain e1 s1 where f1: "flushMutations env ?d1 nm s = (e1, s1)"
    by (cases "flushMutations env ?d1 nm s")
  have "run_action env nm (AsyncFn pre ?ps fin) s =
           (Promise ?ps fin, Some (Rejected revoked_error),
            case (e1, s1) of
              (None, s1) \<Rightarrow> (invoke nm s1)\<lparr>unhandled := [JsError (disposed_message nm)]\<rparr>
            | (Some x, s1) \<Rightarrow>
                (invoke nm s1)\<lparr>currentDraft := Some ?d1, revoked := True,
                               unhandled := [x, JsError (disposed_message nm)]\<rparr>)"
  proof (cases e1)
    case None
    have f: "fire_timer env ?w1 = invoke nm s1"
      by (simp add: fire_timer_open f1 None)
    have "currentDraft (invoke nm s1) = None \<or> revoked (invoke nm s1)" by (simp add: invoke_def)
    then have p: "run_steps (Reuse es # rest) (invoke nm s1) = (Some revoked_error, invoke nm s1)"
      by (rule run_steps_stale)
    have ph: "run_phases env ?ps fin ?w1 = (Throw revoked_error, invoke nm s1)"
      by (simp add: f p del: run_steps.simps)
    show ?thesis
      unfolding run_action_def c
      apply (simp add: run_loop_def ph settle_rejected catch_callback_revoked None
               del: run_phases.simps)
      apply (simp add: fire_timer_def invoke_def)
      done
  next
    case (Some x)
    let ?wt = "(invoke nm s1)\<lparr>currentDraft := Some ?d1, revoked := True, unhandled := [x]\<rparr>"
    have f: "fire_timer env ?w1 = ?wt"
      by (simp add: fire_timer_open f1 Some)
    have "currentDraft ?wt = None \<or> revoked ?wt" by simp
    then have p: "run_steps (Reuse es # rest) ?wt = (Some revoked_error, ?wt)"
      by (rule run_steps_stale)
    have ph: "run_phases env ?ps fin ?w1 = (Throw revoked_error, ?wt)"
      by (simp add: f p del: run_steps.simps)
    show ?thesis
      unfolding run_action_def c
      apply (simp add: run_loop_def ph settle_rejected catch_callback_revoked Some
               del: run_phases.simps)
      apply (simp add: fire_timer_def invoke_def)
      done
  qed
  with revoked_not_disposed show ?thesis by (simp add: f1)
qed

theorem stale_draft_rejects_witness:
  "run_action (\<lambda>upd r. r) ''act''
     (AsyncFn [Touch [\<lparr>op = Replace, path = [Key ''a'']\<rparr>]]
              [(AfterTimer, [Reuse [\<lparr>op = Replace, path = [Key ''b'']\<rparr>]])] Return)
     (createStore [])
   = (Promise [(AfterTimer, [Reuse [\<lparr>op = Replace, path = [Key ''b'']\<rparr>]])] Return,
      Some (Rejected revoked_error),
      \<lparr>the_store =
         \<lparr>currentState = [\<lparr>op = Replace, path = [Key ''a'']\<rparr>],
          pathListeners = [], globalListeners = [], allocated = 0,
          trace = [Mutations ''act'' [''a'']]\<rparr>,
       action_name = ''act'', currentDraft = None, timeout = False,
       unhandled = [JsError (disposed_message ''act'')], revoked = False\<rparr>)"
proof -
  let ?env = "(\<lambda>upd r. r) :: behaviour"
  let ?pre = "[Touch [\<lparr>op = Replace, path = [Key ''a'']\<rparr>]]"
  have flush: "flushMutations ?env
                 \<lparr>base = currentState (createStore []), pending = edits_of ?pre\<rparr> ''act''
                 (createStore []) =
               (None,
                \<lparr>currentState = [\<lparr>op = Replace, path = [Key ''a'']\<rparr>],
                 pathListeners = [], globalListeners = [], allocated = 0,
                 trace = [Mutations ''act'' [''a'']]\<rparr>)"
    by code_simp
  have "starts_with_touch ?pre" by simp
  from stale_draft_rejects
    [OF this, of ?env "''act''" "[\<lparr>op = Replace, path = [Key ''b'']\<rparr>]" "[]" "[]" Return "createStore []"]
    flush
  show ?thesis by (simp add: invoke_def)
qed

text \<open>
  The claim as stated ("the caller receives a descriptive error that names the action")
  fails: the caller's promise is rejected with the runtime's error.
\<close>

theorem stale_draft_counterexample:
  "fst (snd (run_action (\<lambda>upd r. r) ''act''
     (AsyncFn [Touch [\<lparr>op = Replace, path = [Key ''a'']\<rparr>]]
              [(AfterTimer, [Reuse [\<lparr>op = Replace, path = [Key ''b'']\<rparr>]])] Return)
     (createStore [])))
   = Some (Rejected (JsError ''Cannot perform 'set' on a proxy that has been revoked''))
   \<and> JsError ''Cannot perform 'set' on a proxy that has been revoked'' \<noteq> JsError (disposed_message ''act'')"
  by code_simp

section \<open>Properties of the subscription registry\<close>

lemma indexOf_first: "x \<notin> set us \<Longrightarrow> indexOf (us @ x # vs) x = int (length us)"
  by (induction us) (auto simp: Let_def)

lemma indexOf_absent: "x \<notin> set xs \<Longrightarrow> indexOf xs x = - 1"
  by (induction xs) (auto simp: Let_def)

lemma splice1_at: "splice1 (int (length us)) (us @ x # vs) = us @ vs"
  by (simp add: splice1_def Let_def)

lemma splice1_minus_one: "splice1 (- 1) xs = butlast xs"
proof (cases xs rule: rev_cases)
  case Nil
  then show ?thesis by (simp add: splice1_def)
next
  case (snoc ys y)
  then show ?thesis by (simp add: splice1_def Let_def)
qed

lemma splice1_first:
  assumes "sub_id r \<notin> sub_id ` set us"
  shows "splice1 (indexOf (map sub_id (us @ r # vs)) (sub_id r)) (us @ r # vs) = us @ vs"
proof -
  have "indexOf (map sub_id (us @ r # vs)) (sub_id r) = int (length (map sub_id us))"
    using assms indexOf_first [of "sub_id r" "map sub_id us" "map sub_id vs"] by simp
  then show ?thesis
    using splice1_at [of us r vs] by simp
qed

lemma remove_listener_absent:
  assumes "map_of pl p = Some b" and "sid \<notin> sub_id ` set b"
  shows "remove_listener sid p pl = Inr (put p (butlast b) pl)"
proof -
  have "indexOf (map sub_id b) sid = - 1"
    using assms(2) by (intro indexOf_absent) simp
  then show ?thesis
    using assms(1) by (simp add: remove_listener_def get_property_Own splice1_minus_one)
qed

text \<open>
  A disposer whose paths all have a bucket does not throw; it takes one entry out of each
  of these buckets and leaves the others as they are.
\<close>

lemma remove_listeners_own:
  assumes "distinct ps" and "\<forall>q \<in> set ps. map_of pl q \<noteq> None"
  shows "\<exists>pl'. remove_listeners sid ps pl = (None, pl') \<and>
           (\<forall>q. map_of pl' q =
              (if q \<in> set ps
               then map_option (\<lambda>b. splice1 (indexOf (map sub_id b) sid) b) (map_of pl q)
               else map_of pl q))"
  using assms
proof (induction ps arbitrary: pl)
  case Nil
  then show ?case by simp
next
  case (Cons p ps)
  from Cons.prems obtain b where b: "map_of pl p = Some b" by auto
  from Cons.prems have dp: "p \<notin> set ps" "distinct ps" by simp_all
  let ?pl1 = "put p (splice1 (indexOf (map sub_id b) sid) b) pl"
  have step: "remove_listener sid p pl = Inr ?pl1"
    using b by (simp add: remove_listener_def get_property_Own)
  have "\<forall>q \<in> set ps. map_of ?pl1 q \<noteq> None"
    using Cons.prems(2) by (simp add: map_of_put)
  from Cons.IH [OF dp(2) this] obtain pl' where
    pl': "remove_listeners sid ps ?pl1 = (None, pl')"
      "\<forall>q. map_of pl' q =
         (if q \<in> set ps
          then map_option (\<lambda>b. splice1 (indexOf (map sub_id b) sid) b) (map_of ?pl1 q)
          else map_of ?pl1 q)"
    by blast
  have "\<forall>q. map_of pl' q =
          (if q \<in> set (p # ps)
           then map_option (\<lambda>b. splice1 (indexOf (map sub_id b) sid) b) (map_of pl q)
           else map_of pl q)"
    using pl'(2) dp(1) b by (auto simp: map_of_put)
  with pl'(1) step show ?case by simp
qed

lemma remove_listeners_outside:
  "q \<notin> set ps \<Longrightarrow> map_of (snd (remove_listeners sid ps pl)) q = map_of pl q"
proof (induction ps arbitrary: pl)
  case Nil
  then show ?case by simp
next
  case (Cons p ps)
  then have q: "q \<noteq> p" "q \<notin> set ps" by simp_all
  show ?case
  proof (cases "remove_listener sid p pl")
    case (Inl e)
    then show ?thesis by simp
  next
    case (Inr pl1)
    then have "map_of pl1 q = map_of pl q"
      using q(1) by (auto simp: remove_listener_def map_of_put split: property.splits)
    with Cons.IH [OF q(2), of pl1] Inr show ?thesis by simp
  qed
qed

text \<open>
  Claim C6 does not hold of the code. The second call of a disposer finds no entry,
  \<open>indexOf\<close> gives \<open>-1\<close>, and \<open>splice(-1, 1)\<close> removes the last element of the array:
  with two subscriptions \<open>A\<close> and \<open>B\<close> on the path \<open>x\<close>, disposing \<open>A\<close> twice leaves the
  bucket empty, and with two global listeners, disposing the first twice removes both.
\<close>

theorem dispose_twice_removes_another:
  "(case subscribe [SetObj [''x'']] 7 (Some 0) (Some ''A'') (createStore []) of
      (Inl e, h1, s1) \<Rightarrow> None
    | (Inr dA, h1, s1) \<Rightarrow>
        (case subscribe h1 8 (Some 0) (Some ''B'') s1 of
           (dB, h2, s2) \<Rightarrow>
             Some (map sub_id (bucket (pathListeners s2) ''x''),
                   map_prod id (\<lambda>s. map sub_id (bucket (pathListeners s) ''x'')) (dispose h2 dA s2),
                   map_prod id (\<lambda>s. map sub_id (bucket (pathListeners s) ''x'')) (dispose_twice h2 dA s2))))
   = Some ([0, 1], (None, [1]), (None, []))
   \<and> (case subscribe [] 7 None None (createStore []) of
      (Inl e, h1, s1) \<Rightarrow> None
    | (Inr d1, h1, s1) \<Rightarrow>
        (case subscribe h1 8 None None s1 of
           (d2, h2, s2) \<Rightarrow>
             Some (globalListeners s2,
                   map_prod id globalListeners (dispose h2 d1 s2),
                   map_prod id globalListeners (dispose_twice h2 d1 s2))))
   = Some ([7, 8], (None, [8]), (None, []))"
  by code_simp

subsection \<open>Unsubscribing during dispatch\<close>








subsection \<open>The paths a subscription is registered under\<close>

lemma add_listener_Inr:
  "add_listener sub p pl = Inr pl' \<Longrightarrow> map_of pl' = (map_of pl)(p \<mapsto> bucket pl p @ [sub])"
  by (auto simp: add_listener_def get_property_def map_of_put bucket_def
        split: option.splits if_splits)

lemma add_listeners_None:
  "distinct xs \<Longrightarrow> add_listeners sub xs pl = (None, pl') \<Longrightarrow>
   map_of pl' q = (if q \<in> set xs then Some (bucket pl q @ [sub]) else map_of pl q)"
proof (induction xs arbitrary: pl)
  case Nil
  then show ?case by simp
next
  case (Cons x xs)
  from Cons.prems(1) have dx: "x \<notin> set xs" "distinct xs" by simp_all
  show ?case
  proof (cases "add_listener sub x pl")
    case (Inl e)
    with Cons.prems(2) show ?thesis by simp
  next
    case (Inr pl1)
    with Cons.prems(2) have "add_listeners sub xs pl1 = (None, pl')" by simp
    from Cons.IH [OF dx(2) this] add_listener_Inr [OF Inr] dx(1) show ?thesis
      by (auto simp: bucket_def)
  qed
qed

text \<open>
  A set that holds the name of an inherited member: \<open>subscribe\<close> throws at that path, gives
  back no disposer, and the subscription stays in the buckets of the paths before it.
\<close>

lemma subscribe_inherited_path:
  "subscribe [SetObj [''x'', ''constructor'', ''y'']] 7 (Some 0) None (createStore []) =
     (Inl (not_a_function ''push''),
      [SetObj [''x'', ''constructor'', ''y''], ArrayObj [''x'', ''constructor'', ''y'']],
      \<lparr>currentState = [], pathListeners = [(''x'', [\<lparr>sub_id = 0, update = 7, name = None\<rparr>])],
       globalListeners = [], allocated = 1, trace = []\<rparr>)"
  by code_simp

lemma length_mutate_set [simp]: "length (mutate_set a m h) = length h"
  by (simp add: mutate_set_def split: obj.splits)

lemma mutate_set_array:
  "k < length h \<Longrightarrow> h ! k = ArrayObj ys \<Longrightarrow> mutate_set a m h ! k = ArrayObj ys"
  by (cases "a = k") (auto simp: mutate_set_def split: obj.splits)

lemma caller_mutations_array:
  "k < length h \<Longrightarrow> h ! k = ArrayObj ys \<Longrightarrow>
   k < length (caller_mutations ms h) \<and> caller_mutations ms h ! k = ArrayObj ys"
  unfolding caller_mutations_def
  by (induction ms arbitrary: h) (auto simp: mutate_set_array)

lemma array_from_caller_mutations:
  "k < length h \<Longrightarrow> h ! k = ArrayObj ys \<Longrightarrow> array_from (caller_mutations ms h) k = ys"
  using caller_mutations_array [of k h ys ms] by (simp add: array_from_def)

text \<open>
  Claim C10. A call of \<open>subscribe\<close> with a set of paths that returns a disposer has copied
  the set: the subscription is in the bucket of exactly the paths the set holds at that
  moment. Whatever the caller does to its sets afterwards, and whatever objects are
  created later, the disposer does the same as without those changes, on every store.
  It leaves the buckets of all other paths and the global listeners as they are, on
  every store. Called at any later time at which the subscription is still in its
  buckets, wherever in them, it does not throw and takes the subscription, and nothing
  else, out of exactly the buckets it was added to.
\<close>

theorem subscribe_captures_paths:
  assumes dist: "distinct (array_from h a)"
    and sub: "subscribe h upd (Some a) nm s = (Inr d, h', s')"
    and later: "\<forall>p \<in> set (array_from h a).
                  map_of (pathListeners t) p =
                    Some (U p @ \<lparr>sub_id = allocated s, update = upd, name = nm\<rparr> # V p) \<and>
                  allocated s \<notin> sub_id ` set (U p)"
  shows "(\<forall>p. bucket (pathListeners s') p =
            (if p \<in> set (array_from h a)
             then bucket (pathListeners s) p @ [\<lparr>sub_id = allocated s, update = upd, name = nm\<rparr>]
             else bucket (pathListeners s) p))
       \<and> dispose (caller_mutations ms (h' @ hs)) d t0 = dispose h' d t0
       \<and> (\<forall>q. q \<in> set (array_from h a) \<or>
              map_of (pathListeners (snd (dispose h' d t0))) q = map_of (pathListeners t0) q)
       \<and> globalListeners (snd (dispose h' d t0)) = globalListeners t0
       \<and> (\<exists>pl'. dispose (caller_mutations ms (h' @ hs)) d t = (None, t\<lparr>pathListeners := pl'\<rparr>)
              \<and> (\<forall>q. map_of pl' q =
                    (if q \<in> set (array_from h a) then Some (U q @ V q)
                     else map_of (pathListeners t) q)))"
proof -
  let ?xs = "array_from h a"
  let ?sub = "\<lparr>sub_id = allocated s, update = upd, name = nm\<rparr>"
  have cell: "array_from (h @ [ArrayObj ?xs]) (length h) = ?xs"
    by (simp add: array_from_def)
  obtain e pl1 where al: "add_listeners ?sub ?xs (pathListeners s) = (e, pl1)"
    by (cases "add_listeners ?sub ?xs (pathListeners s)")
  from sub al have e: "e = None" and d: "d = PathDisposer (length h) (allocated s)"
    and h': "h' = h @ [ArrayObj ?xs]"
    and s': "s' = s\<lparr>pathListeners := pl1, allocated := Suc (allocated s)\<rparr>"
    by (simp_all add: subscribe_def Let_def cell split: option.splits)
  \<comment> \<open>where the subscription was put\<close>
  have m: "map_of pl1 q = (if q \<in> set ?xs then Some (bucket (pathListeners s) q @ [?sub])
                           else map_of (pathListeners s) q)" for q
    using al e by (intro add_listeners_None [OF dist]) simp
  then have added: "bucket (pathListeners s') p =
      (if p \<in> set ?xs then bucket (pathListeners s) p @ [?sub] else bucket (pathListeners s) p)" for p
    by (simp add: s' bucket_def)
  \<comment> \<open>the array the disposer reads is not the caller's set\<close>
  have "length h < length (h' @ hs)" "(h' @ hs) ! length h = ArrayObj ?xs"
    by (simp_all add: h' nth_append)
  then have still: "array_from (caller_mutations ms (h' @ hs)) (length h) = ?xs"
    by (rule array_from_caller_mutations)
  have now: "array_from h' (length h) = ?xs"
    by (simp add: h' cell)
  have same: "dispose (caller_mutations ms (h' @ hs)) d t0 = dispose h' d t0" for t0
    by (simp add: dispose_def registry_def d still now)
  \<comment> \<open>the buckets the disposer does not touch\<close>
  have run0: "dispose h' d t0 =
      (fst (remove_listeners (allocated s) ?xs (pathListeners t0)),
       t0\<lparr>pathListeners := snd (remove_listeners (allocated s) ?xs (pathListeners t0))\<rparr>)"
    by (simp add: dispose_def d now registry_def set_registry_def split: prod.splits)
  have outside: "q \<in> set ?xs \<or> map_of (pathListeners (snd (dispose h' d t0))) q = map_of (pathListeners t0) q" for q
    unfolding run0 by (cases "q \<in> set ?xs") (simp_all add: remove_listeners_outside)
  have globals: "globalListeners (snd (dispose h' d t0)) = globalListeners t0"
    unfolding run0 by simp
  \<comment> \<open>what the disposer removes\<close>
  have own: "\<forall>q \<in> set ?xs. map_of (pathListeners t) q \<noteq> None"
    using later by simp
  from remove_listeners_own [OF dist own, of "allocated s"] obtain pl2 where
    pl2: "remove_listeners (allocated s) ?xs (pathListeners t) = (None, pl2)"
      "\<forall>q. map_of pl2 q =
         (if q \<in> set ?xs
          then map_option (\<lambda>b. splice1 (indexOf (map sub_id b) (allocated s)) b) (map_of (pathListeners t) q)
          else map_of (pathListeners t) q)"
    by blast
  have removed: "map_of pl2 q = (if q \<in> set ?xs then Some (U q @ V q) else map_of (pathListeners t) q)" for q
  proof (cases "q \<in> set ?xs")
    case True
    with later have b: "map_of (pathListeners t) q = Some (U q @ ?sub # V q)"
      and "sub_id ?sub \<notin> sub_id ` set (U q)"
      by simp_all
    from splice1_first [OF this(2), of "V q"] b pl2(2) True show ?thesis
      by simp
  next
    case False
    with pl2(2) show ?thesis by simp
  qed
  have run: "dispose (caller_mutations ms (h' @ hs)) d t = (None, t\<lparr>pathListeners := pl2\<rparr>)"
    unfolding same by (simp add: dispose_def d now registry_def set_registry_def pl2(1))
  from added same [of t0] outside globals run removed show ?thesis
    by blast
qed

text \<open>
  A subscription to \<open>x\<close> and \<open>y\<close> comes between an earlier one to \<open>x\<close> and a later one to \<open>x\<close>
  and \<open>y\<close>; the caller then adds \<open>z\<close> to its set and deletes \<open>x\<close> from it.
\<close>

theorem subscribe_captures_paths_witness:
  "(\<forall>p. bucket (pathListeners
            \<lparr>currentState = [],
             pathListeners =
               [(''x'', [\<lparr>sub_id = 0, update = 5, name = None\<rparr>, \<lparr>sub_id = 1, update = 7, name = None\<rparr>]),
                (''y'', [\<lparr>sub_id = 1, update = 7, name = None\<rparr>])],
             globalListeners = [], allocated = 2, trace = []\<rparr>) p =
          (if p \<in> set (array_from [SetObj [''x'', ''y'']] 0)
           then bucket (pathListeners
                  \<lparr>currentState = [], pathListeners = [(''x'', [\<lparr>sub_id = 0, update = 5, name = None\<rparr>])],
                   globalListeners = [], allocated = 1, trace = []\<rparr>) p
                @ [\<lparr>sub_id = 1, update = 7, name = None\<rparr>]
           else bucket (pathListeners
                  \<lparr>currentState = [], pathListeners = [(''x'', [\<lparr>sub_id = 0, update = 5, name = None\<rparr>])],
                   globalListeners = [], allocated = 1, trace = []\<rparr>) p))
   \<and> array_from (caller_mutations [(0, SetAdd ''z''), (0, SetDelete ''x'')]
                   [SetObj [''x'', ''y''], ArrayObj [''x'', ''y''], ArrayObj [''x'', ''y'']]) 0 = [''y'', ''z'']
   \<and> dispose (caller_mutations [(0, SetAdd ''z''), (0, SetDelete ''x'')]
                [SetObj [''x'', ''y''], ArrayObj [''x'', ''y''], ArrayObj [''x'', ''y'']])
         (PathDisposer 1 1)
         \<lparr>currentState = [],
          pathListeners =
            [(''x'', [\<lparr>sub_id = 0, update = 5, name = None\<rparr>, \<lparr>sub_id = 1, update = 7, name = None\<rparr>,
                     \<lparr>sub_id = 2, update = 9, name = None\<rparr>]),
             (''y'', [\<lparr>sub_id = 1, update = 7, name = None\<rparr>, \<lparr>sub_id = 2, update = 9, name = None\<rparr>])],
          globalListeners = [], allocated = 3, trace = []\<rparr>
       = (None,
          \<lparr>currentState = [],
           pathListeners =
             [(''x'', [\<lparr>sub_id = 0, update = 5, name = None\<rparr>, \<lparr>sub_id = 2, update = 9, name = None\<rparr>]),
              (''y'', [\<lparr>sub_id = 2, update = 9, name = None\<rparr>])],
           globalListeners = [], allocated = 3, trace = []\<rparr>)"
proof -
  let ?h = "[SetObj [''x'', ''y'']]"
  let ?A = "\<lparr>sub_id = 0, update = 5, name = None\<rparr> :: subscription"
  let ?B = "\<lparr>sub_id = 1, update = 7, name = None\<rparr> :: subscription"
  let ?C = "\<lparr>sub_id = 2, update = 9, name = None\<rparr> :: subscription"
  let ?s = "\<lparr>currentState = [], pathListeners = [(''x'', [?A])],
             globalListeners = [], allocated = 1, trace = []\<rparr>"
  let ?h' = "[SetObj [''x'', ''y''], ArrayObj [''x'', ''y'']]"
  let ?s' = "\<lparr>currentState = [], pathListeners = [(''x'', [?A, ?B]), (''y'', [?B])],
             globalListeners = [], allocated = 2, trace = []\<rparr>"
  let ?t = "\<lparr>currentState = [], pathListeners = [(''x'', [?A, ?B, ?C]), (''y'', [?B, ?C])],
             globalListeners = [], allocated = 3, trace = []\<rparr>"
  let ?U = "\<lambda>p. if p = ''x'' then [?A] else []"
  let ?V = "\<lambda>p::string. [?C]"
  let ?ms = "[(0, SetAdd ''z''), (0, SetDelete ''x'')]"
  let ?hs = "[ArrayObj [''x'', ''y'']]"
  have dist: "distinct (array_from ?h 0)"
    by (simp add: array_from_def)
  have sub: "subscribe ?h 7 (Some 0) None ?s = (Inr (PathDisposer 1 1), ?h', ?s')"
    by code_simp
  have later: "\<forall>p \<in> set (array_from ?h 0).
                 map_of (pathListeners ?t) p =
                   Some (?U p @ \<lparr>sub_id = allocated ?s, update = 7, name = None\<rparr> # ?V p) \<and>
                 allocated ?s \<notin> sub_id ` set (?U p)"
    by (simp add: array_from_def)
  have changed: "array_from (caller_mutations ?ms (?h' @ ?hs)) 0 = [''y'', ''z'']"
    by code_simp
  have run: "dispose ?h' (PathDisposer 1 1) ?t =
      (None,
       \<lparr>currentState = [], pathListeners = [(''x'', [?A, ?C]), (''y'', [?C])],
        globalListeners = [], allocated = 3, trace = []\<rparr>)"
    by code_simp
  from subscribe_captures_paths [OF dist sub later, where ms = ?ms and hs = ?hs and ?t0.0 = ?t]
    changed run
  show ?thesis by simp
qed

end
